theory Spec2Isabelle
  imports Complex_Main "HOL-Library.AList"
begin

chapter \<open>Utility functions of main.js: model\<close>

text \<open>
  The eight utilities of \<^verbatim>\<open>src/main.js\<close> are embedded function by function. The first
  part of the theory holds the definitions, the second part the properties.

  A JavaScript string is a sequence of UTF-16 code units, written here as a list of
  naturals; \<open>str\<close> turns an ASCII literal into such a list. A \<^verbatim>\<open>throw\<close> is the
  left summand of a sum type.
\<close>

section \<open>Strings and errors\<close>

type_synonym jsstring = "nat list"

definition str :: "string \<Rightarrow> jsstring" where
  "str s = map of_char s"

text \<open>
  \<open>TypeError\<close> and \<open>URIError\<close> are the exceptions of the host. \<open>Unmodelled\<close> marks a
  run that leaves the modelled fragment of the language (it would call a user function
  stored in a property, or an accessor of a prototype chain).
\<close>

datatype error = TypeError | URIError | Unmodelled

section \<open>Values\<close>

text \<open>
  A value of the language. A number is NaN, an infinity or a finite value (both zeros
  are \<open>Finite 0\<close>, which is what \<^verbatim>\<open>===\<close> sees). A function value is an identity only: the
  code never looks inside one. An object value is the identity of an object (see the
  heap below).
\<close>

datatype jsnum = NaN | PosInfinity | NegInfinity | Finite rat

datatype jsval =
    VUndefined | VNull | VBool bool | VNum jsnum | VBigInt int | VStr jsstring
  | VSymbol nat | VFun nat | VObj nat

datatype jstype =
    TyUndefined | TyObject | TyBoolean | TyNumber | TyBigint | TyString | TySymbol | TyFunction

fun typeof :: "jsval \<Rightarrow> jstype" where
  "typeof VUndefined = TyUndefined"
| "typeof VNull = TyObject"
| "typeof (VBool b) = TyBoolean"
| "typeof (VNum n) = TyNumber"
| "typeof (VBigInt i) = TyBigint"
| "typeof (VStr s) = TyString"
| "typeof (VSymbol n) = TySymbol"
| "typeof (VFun f) = TyFunction"
| "typeof (VObj a) = TyObject"

text \<open>\<^verbatim>\<open>a === b\<close>: equal values of one type, NaN being different from itself.\<close>

definition strict_eq :: "jsval \<Rightarrow> jsval \<Rightarrow> bool" where
  "strict_eq a b \<longleftrightarrow> a = b \<and> a \<noteq> VNum NaN"

section \<open>parseQuery (main.js, lines 79 to 91)\<close>

text \<open>
  \<^verbatim>\<open>s.split(sep)\<close> for a separator of one code unit: every occurrence of the separator
  ends a piece, so the result is never empty and has one piece more than there are
  separators.
\<close>

fun js_split :: "nat \<Rightarrow> jsstring \<Rightarrow> jsstring list" where
  "js_split sep [] = [[]]"
| "js_split sep (c # cs) =
     (if c = sep then [] # js_split sep cs
      else (case js_split sep cs of [] \<Rightarrow> [[c]] | p # ps \<Rightarrow> (c # p) # ps))"

text \<open>
  \<^verbatim>\<open>decodeURIComponent\<close> is the host's decoder (ECMA-262, Decode with an empty set of
  preserved escapes). A code unit other than \<^verbatim>\<open>%\<close> (37) is copied. A \<^verbatim>\<open>%\<close> must be
  followed by two hexadecimal digits giving an octet \<open>B\<close>; an octet below 128 is the
  decoded code unit; otherwise \<open>B\<close> starts a UTF-8 sequence of \<open>n\<close> octets, \<open>n\<close> the number
  of its leading one bits, whose other octets are further escapes; the sequence must be
  well-formed UTF-8 and its code point is written in UTF-16. Every failure throws
  URIError.
\<close>

definition hexval :: "nat \<Rightarrow> nat option" where
  "hexval c =
     (if 48 \<le> c \<and> c \<le> 57 then Some (c - 48)
      else if 65 \<le> c \<and> c \<le> 70 then Some (c - 55)
      else if 97 \<le> c \<and> c \<le> 102 then Some (c - 87)
      else None)"

fun ParseHexOctet :: "jsstring \<Rightarrow> nat option" where
  "ParseHexOctet (h1 # h2 # rest) =
     (case hexval h1 of None \<Rightarrow> None
      | Some a \<Rightarrow> (case hexval h2 of None \<Rightarrow> None | Some b \<Rightarrow> Some (16 * a + b)))"
| "ParseHexOctet _ = None"

definition leading_ones :: "nat \<Rightarrow> nat" where
  "leading_ones B =
     (if B < 128 then 0 else if B < 192 then 1 else if B < 224 then 2
      else if B < 240 then 3 else if B < 248 then 4 else 5)"

fun continuation :: "nat \<Rightarrow> jsstring \<Rightarrow> nat list option" where
  "continuation 0 s = Some []"
| "continuation (Suc j) [] = None"
| "continuation (Suc j) (p # t) =
     (if p \<noteq> 37 then None
      else (case ParseHexOctet t of None \<Rightarrow> None
            | Some b \<Rightarrow> map_option ((#) b) (continuation j (drop 2 t))))"

definition is_cont :: "nat \<Rightarrow> bool" where
  "is_cont b \<longleftrightarrow> 128 \<le> b \<and> b < 192"

fun utf8_value :: "nat list \<Rightarrow> nat option" where
  "utf8_value [b0, b1] =
     (let V = (b0 - 192) * 64 + (b1 - 128)
      in if is_cont b1 \<and> 128 \<le> V then Some V else None)"
| "utf8_value [b0, b1, b2] =
     (let V = (b0 - 224) * 4096 + (b1 - 128) * 64 + (b2 - 128)
      in if is_cont b1 \<and> is_cont b2 \<and> 2048 \<le> V \<and> \<not> (55296 \<le> V \<and> V \<le> 57343)
         then Some V else None)"
| "utf8_value [b0, b1, b2, b3] =
     (let V = (b0 - 240) * 262144 + (b1 - 128) * 4096 + (b2 - 128) * 64 + (b3 - 128)
      in if is_cont b1 \<and> is_cont b2 \<and> is_cont b3 \<and> 65536 \<le> V \<and> V \<le> 1114111
         then Some V else None)"
| "utf8_value _ = None"

definition UTF16EncodeCodePoint :: "nat \<Rightarrow> jsstring" where
  "UTF16EncodeCodePoint V =
     (if V < 65536 then [V]
      else [55296 + (V - 65536) div 1024, 56320 + (V - 65536) mod 1024])"

fun decodeURIComponent :: "jsstring \<Rightarrow> error + jsstring" where
  "decodeURIComponent [] = Inr []"
| "decodeURIComponent (c # cs) =
     (if c \<noteq> 37 then
        (case decodeURIComponent cs of Inl e \<Rightarrow> Inl e | Inr r \<Rightarrow> Inr (c # r))
      else
        (case ParseHexOctet cs of
           None \<Rightarrow> Inl URIError
         | Some B \<Rightarrow>
             if leading_ones B = 0 then
               (case decodeURIComponent (drop 2 cs) of Inl e \<Rightarrow> Inl e | Inr r \<Rightarrow> Inr (B # r))
             else if leading_ones B = 1 \<or> 4 < leading_ones B then Inl URIError
             else
               (case continuation (leading_ones B - 1) (drop 2 cs) of
                  None \<Rightarrow> Inl URIError
                | Some bs \<Rightarrow>
                    (case utf8_value (B # bs) of
                       None \<Rightarrow> Inl URIError
                     | Some V \<Rightarrow>
                         (case decodeURIComponent (drop (3 * (leading_ones B - 1)) (drop 2 cs)) of
                            Inl e \<Rightarrow> Inl e
                          | Inr r \<Rightarrow> Inr (UTF16EncodeCodePoint V @ r))))))"

text \<open>
  \<^verbatim>\<open>params\<close> starts as \<^verbatim>\<open>{}\<close> and is kept as an association list in insertion order.
  \<^verbatim>\<open>params[k] = v\<close> adds or overwrites the own property \<open>k\<close>, except for the key
  \<^verbatim>\<open>__proto__\<close>: that assignment runs the prototype setter of \<^verbatim>\<open>Object.prototype\<close>,
  which ignores a string and creates no property.
\<close>

type_synonym params = "(jsstring \<times> jsstring) list"

definition set_param :: "params \<Rightarrow> jsstring \<Rightarrow> jsstring \<Rightarrow> params" where
  "set_param ps k v = (if k = str ''__proto__'' then ps else AList.update k v ps)"

text \<open>
  The callback of \<^verbatim>\<open>forEach\<close> (lines 83 to 88). \<^verbatim>\<open>const [key, value] = pair.split('=')\<close>
  takes the first two pieces of the split: \<open>key\<close> is the first (it always exists),
  \<open>value\<close> the second, \<^verbatim>\<open>undefined\<close> when there is none. An empty \<open>key\<close> is falsy, an
  empty or undefined \<open>value\<close> is falsy. The key is decoded before the value.
\<close>

definition parseQuery_pair :: "params \<Rightarrow> jsstring \<Rightarrow> error + params" where
  "parseQuery_pair ps pair =
     (let parts = js_split 61 pair; key = hd parts in
      if key = [] then Inr ps
      else
        (case decodeURIComponent key of
           Inl e \<Rightarrow> Inl e
         | Inr k \<Rightarrow>
             (case tl parts of
                [] \<Rightarrow> Inr (set_param ps k [])
              | v # _ \<Rightarrow>
                  if v = [] then Inr (set_param ps k [])
                  else (case decodeURIComponent v of
                          Inl e \<Rightarrow> Inl e
                        | Inr v' \<Rightarrow> Inr (set_param ps k v')))))"

fun forEach :: "params \<Rightarrow> jsstring list \<Rightarrow> error + params" where
  "forEach ps [] = Inr ps"
| "forEach ps (pair # pairs) =
     (case parseQuery_pair ps pair of Inl e \<Rightarrow> Inl e | Inr ps' \<Rightarrow> forEach ps' pairs)"

definition query_of :: "jsstring \<Rightarrow> jsstring" where
  "query_of queryString =
     (case queryString of [] \<Rightarrow> queryString
      | c # cs \<Rightarrow> if c = 63 then cs else queryString)"

definition parseQuery :: "jsstring \<Rightarrow> error + params" where
  "parseQuery queryString = forEach [] (js_split 38 (query_of queryString))"

text \<open>
  For the statement of when \<open>parseQuery\<close> returns: a pair is decodable when its key is
  empty (the pair is skipped), or the key and the second piece, if there is one, decode.
\<close>

definition decodes :: "jsstring \<Rightarrow> bool" where
  "decodes s = (case decodeURIComponent s of Inl e \<Rightarrow> False | Inr r \<Rightarrow> True)"

definition pair_decodes :: "jsstring \<Rightarrow> bool" where
  "pair_decodes pair =
     (let parts = js_split 61 pair in
      hd parts = [] \<or>
      (decodes (hd parts) \<and> (case tl parts of [] \<Rightarrow> True | v # rest \<Rightarrow> decodes v)))"

section \<open>toCamelCase (main.js, lines 60 to 64)\<close>

text \<open>
  The class \<^verbatim>\<open>[-_\s]\<close> holds the hyphen (45), the underscore (95), the white space and
  the line terminators of ECMAScript. The dot of a regular expression without the
  \<^verbatim>\<open>s\<close> and \<^verbatim>\<open>u\<close> flags matches one code unit that is not a line terminator.
\<close>

definition is_line_terminator :: "nat \<Rightarrow> bool" where
  "is_line_terminator c \<longleftrightarrow> c = 10 \<or> c = 13 \<or> c = 8232 \<or> c = 8233"

definition is_white_space :: "nat \<Rightarrow> bool" where
  "is_white_space c \<longleftrightarrow>
     c = 9 \<or> c = 11 \<or> c = 12 \<or> c = 32 \<or> c = 160 \<or> c = 5760 \<or> (8192 \<le> c \<and> c \<le> 8202)
     \<or> c = 8239 \<or> c = 8287 \<or> c = 12288 \<or> c = 65279"

definition is_delimiter :: "nat \<Rightarrow> bool" where
  "is_delimiter c \<longleftrightarrow> c = 45 \<or> c = 95 \<or> is_white_space c \<or> is_line_terminator c"

text \<open>
  The first \<^verbatim>\<open>replace\<close>, with the global pattern \<^verbatim>\<open>/[-_\s]+(.)?/g\<close>: scanning from the
  left, a match is a longest run of delimiters and, when a code unit the dot accepts
  follows, that code unit; it is replaced by the upper case of the captured unit, or
  by nothing when the group did not take part. \<open>up\<close> and \<open>low\<close> are the host's
  \<^verbatim>\<open>toUpperCase\<close> and \<^verbatim>\<open>toLowerCase\<close> (Unicode case mappings), parameters of the model.
\<close>

function replace_delimiters :: "(jsstring \<Rightarrow> jsstring) \<Rightarrow> jsstring \<Rightarrow> jsstring" where
  "replace_delimiters up [] = []"
| "replace_delimiters up (c # cs) =
     (if is_delimiter c then
        (case dropWhile is_delimiter cs of
           [] \<Rightarrow> []
         | d # ds \<Rightarrow>
             if is_line_terminator d then replace_delimiters up (d # ds)
             else up [d] @ replace_delimiters up ds)
      else c # replace_delimiters up cs)"
  by pat_completeness auto
termination
proof (relation "measure (\<lambda>(up, s). length s)")
  fix up :: "jsstring \<Rightarrow> jsstring" and c :: nat and cs d ds
  assume "dropWhile is_delimiter cs = d # ds"
  then have "length (d # ds) \<le> length cs"
    by (metis length_dropWhile_le)
  then show "((up, d # ds), (up, c # cs)) \<in> measure (\<lambda>(up, s). length s)"
    and "((up, ds), (up, c # cs)) \<in> measure (\<lambda>(up, s). length s)"
    by simp_all
qed simp_all

text \<open>The second \<^verbatim>\<open>replace\<close>, with \<^verbatim>\<open>/^./\<close>: the first code unit, when the dot accepts it.\<close>

definition lower_first :: "(jsstring \<Rightarrow> jsstring) \<Rightarrow> jsstring \<Rightarrow> jsstring" where
  "lower_first low s =
     (case s of [] \<Rightarrow> []
      | c # cs \<Rightarrow> if is_line_terminator c then s else low [c] @ cs)"

text \<open>
  \<^verbatim>\<open>str.replace\<close> is looked up on the argument: a string finds the built-in method of
  \<^verbatim>\<open>String.prototype\<close>, and the two replacements run; \<^verbatim>\<open>undefined\<close> and \<^verbatim>\<open>null\<close> have no
  properties and the other primitives no \<^verbatim>\<open>replace\<close>, so the call throws TypeError; what
  an object or a function has under that name is not modelled.
\<close>

definition toCamelCase ::
  "(jsstring \<Rightarrow> jsstring) \<Rightarrow> (jsstring \<Rightarrow> jsstring) \<Rightarrow> jsval \<Rightarrow> error + jsstring" where
  "toCamelCase up low v =
     (case v of
        VStr s \<Rightarrow> Inr (lower_first low (replace_delimiters up s))
      | VObj a \<Rightarrow> Inl Unmodelled
      | VFun f \<Rightarrow> Inl Unmodelled
      | _ \<Rightarrow> Inl TypeError)"

text \<open>The case mappings restricted to ASCII letters, for concrete runs.\<close>

definition ascii_upper :: "jsstring \<Rightarrow> jsstring" where
  "ascii_upper = map (\<lambda>c. if 97 \<le> c \<and> c \<le> 122 then c - 32 else c)"

definition ascii_lower :: "jsstring \<Rightarrow> jsstring" where
  "ascii_lower = map (\<lambda>c. if 65 \<le> c \<and> c \<le> 90 then c + 32 else c)"

section \<open>flatten (main.js, lines 33 to 37)\<close>

text \<open>
  A finitely nested array: an element is a value that is not an array (\<open>Elem\<close>) or an
  array of elements (\<open>Arr\<close>). \<^verbatim>\<open>flat.concat(v)\<close> appends the elements of \<open>v\<close> when \<open>v\<close>
  is an array, and \<open>v\<close> itself otherwise; \<^verbatim>\<open>reduce\<close> with the initial value \<^verbatim>\<open>[]\<close> is a
  left fold.
\<close>

datatype 'a nested = Elem 'a | Arr "'a nested list"

definition concat_js :: "'a nested list \<Rightarrow> 'a nested \<Rightarrow> 'a nested list" where
  "concat_js flat v = (case v of Arr ys \<Rightarrow> flat @ ys | Elem x \<Rightarrow> flat @ [v])"

fun flatten :: "'a nested list \<Rightarrow> 'a nested list" where
  "flatten arr =
     foldl (\<lambda>flat toFlatten.
              concat_js flat (case toFlatten of Arr ys \<Rightarrow> Arr (flatten ys) | Elem x \<Rightarrow> toFlatten))
       [] arr"

text \<open>
  The specification's words: the non-sequence elements found by fully recursive
  unnesting, in left-to-right depth-first order.
\<close>

fun leaves :: "'a nested \<Rightarrow> 'a list" where
  "leaves (Elem x) = [x]"
| "leaves (Arr ts) = concat (map leaves ts)"

section \<open>curry (main.js, lines 94 to 104)\<close>

text \<open>
  \<open>fn\<close> is applied to its argument list (\<^verbatim>\<open>fn.apply(this, args)\<close>); \<open>arity\<close> is
  \<^verbatim>\<open>fn.length\<close>. A call of \<^verbatim>\<open>curried\<close> either returns the result of \<open>fn\<close> or a closure
  that has captured \<open>args\<close>; the closure is written \<open>Partial args\<close>, and calling it with
  \<open>moreArgs\<close> is \<^verbatim>\<open>curried\<close> at \<open>args @ moreArgs\<close>.
\<close>

datatype ('a, 'r) curry_out = Result 'r | Partial "'a list"

definition curried :: "nat \<Rightarrow> ('a list \<Rightarrow> 'r) \<Rightarrow> 'a list \<Rightarrow> ('a, 'r) curry_out" where
  "curried arity fn args = (if arity \<le> length args then Result (fn args) else Partial args)"

text \<open>
  A chain of calls \<^verbatim>\<open>f(a0)(a1)...(an)\<close>. Once a call has returned the result of \<open>fn\<close>, a
  further call in the chain would call that result, which is no behaviour of
  \<^verbatim>\<open>curry\<close>: the chain has no value (\<open>None\<close>).
\<close>

fun call_chain ::
  "nat \<Rightarrow> ('a list \<Rightarrow> 'r) \<Rightarrow> ('a, 'r) curry_out \<Rightarrow> 'a list list \<Rightarrow> ('a, 'r) curry_out option" where
  "call_chain arity fn out [] = Some out"
| "call_chain arity fn (Partial args) (moreArgs # rest) =
     call_chain arity fn (curried arity fn (args @ moreArgs)) rest"
| "call_chain arity fn (Result r) (moreArgs # rest) = None"

definition curry :: "nat \<Rightarrow> ('a list \<Rightarrow> 'r) \<Rightarrow> 'a list list \<Rightarrow> ('a, 'r) curry_out option" where
  "curry arity fn calls =
     (case calls of [] \<Rightarrow> None
      | args # rest \<Rightarrow> call_chain arity fn (curried arity fn args) rest)"

text \<open>
  \<^verbatim>\<open>(a, b, c) => a + b + c\<close> on numbers; with a missing argument the sum is NaN, written
  \<open>None\<close>.
\<close>

definition add3 :: "int list \<Rightarrow> int option" where
  "add3 args = (case args of a # b # c # rest \<Rightarrow> Some (a + b + c) | _ \<Rightarrow> None)"

section \<open>memoize (main.js, lines 67 to 76)\<close>

text \<open>
  The state of one wrapper is its \<^verbatim>\<open>cache\<close> (a Map from keys to results, empty when
  \<^verbatim>\<open>memoize\<close> returns) together with the world \<open>'s\<close> that \<open>fn\<close> may read and change;
  \<open>fn\<close> returns a result or throws. \<open>stringify\<close> is the host's \<^verbatim>\<open>JSON.stringify\<close> on the
  argument list, a parameter of the model; it may throw. A call of \<open>fn\<close> from inside
  \<open>fn\<close> through the wrapper is not modelled.
\<close>

definition memoized ::
  "('a list \<Rightarrow> error + 'k) \<Rightarrow> ('a list \<Rightarrow> 's \<Rightarrow> (error + 'r) \<times> 's) \<Rightarrow> 'a list \<Rightarrow>
     ('k \<rightharpoonup> 'r) \<times> 's \<Rightarrow> (error + 'r) \<times> (('k \<rightharpoonup> 'r) \<times> 's)" where
  "memoized stringify fn args st =
     (case stringify args of
        Inl e \<Rightarrow> (Inl e, st)
      | Inr key \<Rightarrow>
          (case fst st key of
             Some r \<Rightarrow> (Inr r, st)
           | None \<Rightarrow>
               (case fn args (snd st) of
                  (Inl e, w) \<Rightarrow> (Inl e, (fst st, w))
                | (Inr r, w) \<Rightarrow> (Inr r, ((fst st)(key \<mapsto> r), w)))))"

text \<open>Any further calls of the wrapper, results dropped, state threaded.\<close>

definition run_calls ::
  "('a list \<Rightarrow> error + 'k) \<Rightarrow> ('a list \<Rightarrow> 's \<Rightarrow> (error + 'r) \<times> 's) \<Rightarrow>
     ('k \<rightharpoonup> 'r) \<times> 's \<Rightarrow> 'a list list \<Rightarrow> ('k \<rightharpoonup> 'r) \<times> 's" where
  "run_calls stringify fn st calls = foldl (\<lambda>s a. snd (memoized stringify fn a s)) st calls"

text \<open>
  A pure function that counts its own invocations in the world: the counter is how
  an invocation count is read off a run.
\<close>

definition counting :: "('a list \<Rightarrow> 'r) \<Rightarrow> 'a list \<Rightarrow> nat \<Rightarrow> (error + 'r) \<times> nat" where
  "counting f args n = (Inr (f args), Suc n)"


section \<open>The object heap\<close>

text \<open>
  \<open>deepClone\<close> and \<open>deepEqual\<close> work on object identities, so objects live in an
  explicit heap: a list of objects, an object's identity being its index, and an
  allocation appending to the list. A reference of the program always points to an
  object of the heap; the properties say so (\<open>closed_heap\<close>, \<open>unfolds\<close>) where they
  read one.
\<close>

text \<open>
  An object has a kind (what \<^verbatim>\<open>instanceof Date\<close>, \<^verbatim>\<open>Array.isArray\<close> and
  \<^verbatim>\<open>instanceof RegExp\<close> tell apart, with the time value of a date and the source and
  flags of a regular expression), its own enumerable string-keyed data properties in
  enumeration order, and a prototype. Of the prototype chain the object carries what
  the code can observe of it:

  \<^item> \<open>inherited_constructor\<close> and \<open>inherited_hasOwnProperty\<close>, the values that a lookup
    of \<^verbatim>\<open>constructor\<close> and of \<^verbatim>\<open>hasOwnProperty\<close> finds on the chain when the object has no
    own property of that name (\<^verbatim>\<open>undefined\<close> when the chain has none, as for an object
    without prototype);
  \<^item> \<open>inherited_keys\<close>, the enumerable string keys of the chain, which \<^verbatim>\<open>for ... in\<close>
    visits after the own keys;
  \<^item> \<open>intercepted\<close>, the names under which an assignment to an object with this chain
    does not create an own enumerable property: the chain has an accessor or a read-only
    property of that name (\<^verbatim>\<open>__proto__\<close> on \<^verbatim>\<open>Object.prototype\<close>), or the object is born
    with a hidden own property of that name (\<^verbatim>\<open>length\<close> of an array).

  Dates and regular expressions have the built-in \<^verbatim>\<open>getTime\<close> and \<^verbatim>\<open>toString\<close>.
\<close>

datatype objkind = KDate jsnum | KRegExp jsstring jsstring | KArray | KObject

datatype proto =
  Proto (inherited_constructor: jsval) (inherited_hasOwnProperty: jsval)
    (inherited_keys: "jsstring list") (intercepted: "jsstring list")

record jsobj =
  kind :: objkind
  proto :: proto
  props :: "(jsstring \<times> jsval) list"

type_synonym heap = "jsobj list"

text \<open>
  The built-in constructors \<^verbatim>\<open>Object\<close>, \<^verbatim>\<open>Array\<close>, \<^verbatim>\<open>Date\<close> and \<^verbatim>\<open>RegExp\<close>, and the built-in
  method \<^verbatim>\<open>Object.prototype.hasOwnProperty\<close>.
\<close>

definition ObjectCtor :: jsval where "ObjectCtor = VFun 0"
definition ArrayCtor :: jsval where "ArrayCtor = VFun 1"
definition DateCtor :: jsval where "DateCtor = VFun 2"
definition RegExpCtor :: jsval where "RegExpCtor = VFun 3"
definition HasOwnPropertyFn :: jsval where "HasOwnPropertyFn = VFun 4"

text \<open>
  The chains of the built-in prototypes, as the host sets them up: what an object
  literal, \<^verbatim>\<open>[]\<close>, \<^verbatim>\<open>new Date\<close> and \<^verbatim>\<open>new RegExp\<close> give. All end in \<^verbatim>\<open>Object.prototype\<close>,
  with its method \<^verbatim>\<open>hasOwnProperty\<close> and its accessor \<^verbatim>\<open>__proto__\<close>, and have no enumerable
  property; an array has its hidden \<^verbatim>\<open>length\<close>, a regular expression its hidden
  \<^verbatim>\<open>lastIndex\<close> and the flag accessors of \<^verbatim>\<open>RegExp.prototype\<close>. An object made by
  \<^verbatim>\<open>Object.create(null)\<close> has the empty chain.
\<close>

definition object_proto :: proto where
  "object_proto = Proto ObjectCtor HasOwnPropertyFn [] [str ''__proto__'']"

definition array_proto :: proto where
  "array_proto = Proto ArrayCtor HasOwnPropertyFn [] [str ''__proto__'', str ''length'']"

definition date_proto :: proto where
  "date_proto = Proto DateCtor HasOwnPropertyFn [] [str ''__proto__'']"

definition regexp_proto :: proto where
  "regexp_proto = Proto RegExpCtor HasOwnPropertyFn []
     [str ''__proto__'', str ''lastIndex'', str ''dotAll'', str ''flags'', str ''global'',
      str ''hasIndices'', str ''ignoreCase'', str ''multiline'', str ''source'',
      str ''sticky'', str ''unicode'', str ''unicodeSets'']"

definition null_proto :: proto where
  "null_proto = Proto VUndefined VUndefined [] []"





definition keys :: "jsobj \<Rightarrow> jsstring list" where
  "keys ob = map fst (props ob)"

text \<open>\<^verbatim>\<open>ob[key]\<close> for an own key; a key the object does not have reads \<^verbatim>\<open>undefined\<close>.\<close>

definition get :: "jsobj \<Rightarrow> jsstring \<Rightarrow> jsval" where
  "get ob key = (case map_of (props ob) key of Some v \<Rightarrow> v | None \<Rightarrow> VUndefined)"


section \<open>deepEqual (main.js, lines 40 to 57)\<close>


section \<open>deepClone (main.js, lines 2 to 21)\<close>

text \<open>
  \<^verbatim>\<open>hash\<close>, the WeakMap from an object to its clone, is a map from identities to
  identities. The new object of lines 7 to 10: a date with the same time value, an
  empty array, a regular expression with the same source and flags (each with the
  built-in prototype), or an object with the prototype of the original.
\<close>

definition new_clone :: "jsobj \<Rightarrow> jsobj" where
  "new_clone ob =
     (case kind ob of
        KDate t \<Rightarrow> \<lparr>kind = KDate t, proto = date_proto, props = []\<rparr>
      | KArray \<Rightarrow> \<lparr>kind = KArray, proto = array_proto, props = []\<rparr>
      | KRegExp s f \<Rightarrow> \<lparr>kind = KRegExp s f, proto = regexp_proto, props = []\<rparr>
      | KObject \<Rightarrow> \<lparr>kind = KObject, proto = proto ob, props = []\<rparr>)"

text \<open>
  \<^verbatim>\<open>for (const key in obj)\<close> visits the own enumerable keys, then the enumerable keys of
  the prototype chain that no own property shadows.
\<close>

definition for_in_keys :: "jsobj \<Rightarrow> jsstring list" where
  "for_in_keys ob = keys ob @ filter (\<lambda>key. key \<notin> set (keys ob)) (inherited_keys (proto ob))"

text \<open>
  \<^verbatim>\<open>obj.hasOwnProperty(key)\<close> looks \<^verbatim>\<open>hasOwnProperty\<close> up on the object: an own property,
  else what the prototype chain has, else \<^verbatim>\<open>undefined\<close>. Calling what was found throws
  TypeError when it is no function (so for an object without prototype, unless it has
  its own method). The built-in method answers whether \<open>key\<close> is an own property;
  another function is not modelled.
\<close>

definition lookup_hasOwnProperty :: "jsobj \<Rightarrow> jsval" where
  "lookup_hasOwnProperty ob =
     (case map_of (props ob) (str ''hasOwnProperty'') of
        Some v \<Rightarrow> v
      | None \<Rightarrow> inherited_hasOwnProperty (proto ob))"

definition hasOwnProperty :: "jsobj \<Rightarrow> jsstring \<Rightarrow> error + bool" where
  "hasOwnProperty ob key =
     (if lookup_hasOwnProperty ob = HasOwnPropertyFn then Inr (key \<in> set (keys ob))
      else if typeof (lookup_hasOwnProperty ob) = TyFunction then Inl Unmodelled
      else Inl TypeError)"

text \<open>
  \<^verbatim>\<open>clone[key] = v\<close> overwrites the own property \<open>key\<close> of the clone or, when the clone
  has none, adds it, unless the name is intercepted (see \<open>intercepted\<close>): what the
  assignment does then (an accessor of the chain runs, or a hidden property changes)
  is not modelled.
\<close>

definition assign :: "heap \<Rightarrow> nat \<Rightarrow> jsstring \<Rightarrow> jsval \<Rightarrow> error + heap" where
  "assign h c key v =
     (if key \<notin> set (keys (h ! c)) \<and> key \<in> set (intercepted (proto (h ! c)))
      then Inl Unmodelled
      else Inr (h[c := (h ! c)\<lparr>props := AList.update key v (props (h ! c))\<rparr>]))"

text \<open>
  The first argument bounds the depth of the recursion, as for \<open>deepEqual\<close>. A result
  is the returned value with the heap and the \<^verbatim>\<open>hash\<close> after the call. The loop of
  lines 14 to 18 is \<open>deepClone_props\<close>, over the keys that \<^verbatim>\<open>for ... in\<close> enumerates.
\<close>

type_synonym clone_state = "heap \<times> (nat \<rightharpoonup> nat)"

fun deepClone :: "nat \<Rightarrow> jsval \<Rightarrow> clone_state \<Rightarrow> (error + jsval \<times> clone_state) option"
  and deepClone_props ::
    "nat \<Rightarrow> nat \<Rightarrow> nat \<Rightarrow> jsstring list \<Rightarrow> clone_state \<Rightarrow> (error + clone_state) option" where
  "deepClone 0 obj st = None"
| "deepClone (Suc n) obj (h, hash) =
     (if obj = VNull \<or> typeof obj \<noteq> TyObject then Some (Inr (obj, (h, hash)))
      else
        (case obj of
           VObj a \<Rightarrow>
             (case hash a of
                Some c \<Rightarrow> Some (Inr (VObj c, (h, hash)))
              | None \<Rightarrow>
                  (case deepClone_props n a (length h) (for_in_keys (h ! a))
                          (h @ [new_clone (h ! a)], hash(a \<mapsto> length h)) of
                     None \<Rightarrow> None
                   | Some (Inl e) \<Rightarrow> Some (Inl e)
                   | Some (Inr st') \<Rightarrow> Some (Inr (VObj (length h), st'))))
         | _ \<Rightarrow> Some (Inr (obj, (h, hash)))))"
| "deepClone_props n a c [] st = Some (Inr st)"
| "deepClone_props n a c (key # rest) (h, hash) =
     (case hasOwnProperty (h ! a) key of
        Inl e \<Rightarrow> Some (Inl e)
      | Inr False \<Rightarrow> deepClone_props n a c rest (h, hash)
      | Inr True \<Rightarrow>
          (case deepClone n (get (h ! a) key) (h, hash) of
             None \<Rightarrow> None
           | Some (Inl e) \<Rightarrow> Some (Inl e)
           | Some (Inr (v, (h', hash'))) \<Rightarrow>
               (case assign h' c key v of
                  Inl e \<Rightarrow> Some (Inl e)
                | Inr h'' \<Rightarrow> deepClone_props n a c rest (h'', hash'))))"

section \<open>debounce (main.js, lines 24 to 30)\<close>

text \<open>
  Time is the host's clock in milliseconds, a natural number. The state of one
  debounced function is the variable \<^verbatim>\<open>timeoutId\<close> (\<^verbatim>\<open>undefined\<close> at first) and, of the
  host, the clock, the pending timers (identifier, due time and the arguments that the
  timer's callback has captured), the next fresh timer identifier, and the log of the
  invocations of \<^verbatim>\<open>func\<close>, each with its time and arguments. \<^verbatim>\<open>func\<close> itself is opaque:
  an invocation is only logged.
\<close>

record 'a debounce_state =
  clock :: nat
  timeoutId :: "nat option"
  pending :: "(nat \<times> nat \<times> 'a list) list"
  fresh :: nat
  invoked :: "(nat \<times> 'a list) list"

definition initial :: "'a debounce_state" where
  "initial = \<lparr>clock = 0, timeoutId = None, pending = [], fresh = 0, invoked = []\<rparr>"

text \<open>
  The host's \<^verbatim>\<open>clearTimeout\<close> removes the pending timer of that identifier, if there is
  one (\<^verbatim>\<open>clearTimeout(undefined)\<close> does nothing); \<^verbatim>\<open>setTimeout\<close> registers a timer due
  \<open>delay\<close> after the current time and returns its fresh identifier.
\<close>

definition clearTimeout :: "nat option \<Rightarrow> 'a debounce_state \<Rightarrow> 'a debounce_state" where
  "clearTimeout tid st = st\<lparr>pending := filter (\<lambda>(i, due, args). Some i \<noteq> tid) (pending st)\<rparr>"

definition setTimeout :: "'a list \<Rightarrow> nat \<Rightarrow> 'a debounce_state \<Rightarrow> nat \<times> 'a debounce_state" where
  "setTimeout args delay st =
     (fresh st,
      st\<lparr>pending := pending st @ [(fresh st, clock st + delay, args)], fresh := Suc (fresh st)\<rparr>)"

text \<open>The returned function of lines 26 to 29.\<close>

definition debounced :: "nat \<Rightarrow> 'a list \<Rightarrow> 'a debounce_state \<Rightarrow> 'a debounce_state" where
  "debounced delay args st =
     (let st1 = clearTimeout (timeoutId st) st;
          (tid, st2) = setTimeout args delay st1
      in st2\<lparr>timeoutId := Some tid\<rparr>)"

text \<open>
  The host's event loop, idealised: when the clock moves to \<open>t\<close>, every pending timer
  due by then fires at its due time, in the order of the due times, and its callback
  invokes \<^verbatim>\<open>func\<close> with the captured arguments.
\<close>

definition advance :: "nat \<Rightarrow> 'a debounce_state \<Rightarrow> 'a debounce_state" where
  "advance t st =
     st\<lparr>clock := max (clock st) t,
        pending := filter (\<lambda>(i, due, args). \<not> due \<le> t) (pending st),
        invoked := invoked st @
          map (\<lambda>(i, due, args). (due, args))
            (sort_key (\<lambda>(i, due, args). due) (filter (\<lambda>(i, due, args). due \<le> t) (pending st)))\<rparr>"

text \<open>A burst: calls of the debounced function at the given times, in order.\<close>

fun run_burst :: "nat \<Rightarrow> (nat \<times> 'a list) list \<Rightarrow> 'a debounce_state \<Rightarrow> 'a debounce_state" where
  "run_burst delay [] st = st"
| "run_burst delay ((t, args) # rest) st = run_burst delay rest (debounced delay args (advance t st))"

text \<open>Every call of the burst comes less than \<open>delay\<close> after the call before it.\<close>

fun within_window :: "nat \<Rightarrow> nat list \<Rightarrow> bool" where
  "within_window delay (t1 # t2 # ts) =
     (t1 \<le> t2 \<and> t2 < t1 + delay \<and> within_window delay (t2 # ts))"
| "within_window delay ts = True"

text \<open>
  The states one debounced function can be in: at most one timer is pending, and it is
  the one \<^verbatim>\<open>timeoutId\<close> names. The log of earlier invocations is arbitrary.
\<close>

definition wrapper_state :: "'a debounce_state \<Rightarrow> bool" where
  "wrapper_state st =
     (case pending st of [] \<Rightarrow> True
      | [(i, due, args)] \<Rightarrow> timeoutId st = Some i
      | _ \<Rightarrow> False)"

section \<open>Acyclic values as finite trees\<close>

text \<open>
  A value is acyclic in a heap when following its references unfolds it to a finite
  tree: a primitive (or function) value, or an object with its kind, its prototype
  chain and the trees of its properties. \<open>unfolds X h v t\<close> says that \<open>v\<close>
  unfolds to \<open>t\<close> in \<open>h\<close> without visiting an object of \<open>X\<close>; shared objects are
  unfolded at each occurrence, and a value on a cycle unfolds to no tree.
\<close>

datatype tval = TPrim jsval | TObj objkind proto "(jsstring \<times> tval) list"

fun is_ref :: "jsval \<Rightarrow> bool" where
  "is_ref (VObj a) = True"
| "is_ref v = False"

fun unfolds :: "nat set \<Rightarrow> heap \<Rightarrow> jsval \<Rightarrow> tval \<Rightarrow> bool" where
  "unfolds X h v (TPrim p) = (v = p \<and> \<not> is_ref p)"
| "unfolds X h v (TObj k pv ts) =
     (case v of
        VObj a \<Rightarrow>
          a < length h \<and> a \<notin> X \<and> kind (h ! a) = k \<and> proto (h ! a) = pv
          \<and> keys (h ! a) = map fst ts
          \<and> list_all2 (unfolds X h) (map snd (props (h ! a))) (map snd ts)
      | _ \<Rightarrow> False)"


text \<open>
  The plain values, for which cloning gives a deeply equal value. No NaN occurs (as a
  number, as the time of an invalid date or as an inherited constructor). In every
  object the property names are distinct; \<^verbatim>\<open>obj.hasOwnProperty\<close> is the built-in method,
  inherited from the prototype chain or held by an own property (so the object has a
  prototype chain that provides it, which an object without prototype has not); no
  own property has a name that the prototype chain intercepts (\<^verbatim>\<open>__proto__\<close> when the
  chain ends in \<^verbatim>\<open>Object.prototype\<close>); an own property named \<^verbatim>\<open>constructor\<close> holds no
  object; and dates, regular expressions and arrays have their built-in prototypes.
\<close>

fun plain :: "tval \<Rightarrow> bool" where
  "plain (TPrim p) = strict_eq p p"
| "plain (TObj k pv ts) =
     (distinct (map fst ts)
      \<and> (case map_of ts (str ''hasOwnProperty'') of
            None \<Rightarrow> inherited_hasOwnProperty pv = HasOwnPropertyFn
          | Some t \<Rightarrow> t = TPrim HasOwnPropertyFn)
      \<and> list_all (\<lambda>key. key \<notin> set (intercepted pv)) (map fst ts)
      \<and> (case map_of ts (str ''constructor'') of
            None \<Rightarrow> True | Some (TPrim p) \<Rightarrow> True | Some (TObj k' pv' ts') \<Rightarrow> False)
      \<and> strict_eq (inherited_constructor pv) (inherited_constructor pv)
      \<and> (case k of
            KDate t \<Rightarrow> t \<noteq> NaN \<and> pv = date_proto
          | KRegExp s f \<Rightarrow> pv = regexp_proto
          | KArray \<Rightarrow> pv = array_proto
          | KObject \<Rightarrow> True)
      \<and> list_all plain (map snd ts))"


section \<open>Notions and example heaps for the statements\<close>


text \<open>
  The objects of \<^verbatim>\<open>testDeepEqual\<close> and two dates: object 0 is \<^verbatim>\<open>{a:1,b:{c:2}}\<close> (with
  object 1 as its \<^verbatim>\<open>b\<close>), object 2 is a second \<^verbatim>\<open>{a:1,b:{c:2}}\<close>, object 4 is
  \<^verbatim>\<open>{a:1,b:{c:3}}\<close>, objects 6 and 7 are two \<^verbatim>\<open>new Date(5)\<close>.
\<close>

definition plain_object :: "(jsstring \<times> jsval) list \<Rightarrow> jsobj" where
  "plain_object ps = \<lparr>kind = KObject, proto = object_proto, props = ps\<rparr>"


text \<open>
  A heap is closed when every reference in it points to one of its objects (as in
  any heap of the host), and a value is in the heap when it is no reference or a
  reference to one of its objects. An object is safe for \<open>deepClone\<close> when its
  \<^verbatim>\<open>hasOwnProperty\<close> is the built-in method and none of its own keys is intercepted by the
  prototype chain of its clone; a heap is safe when its objects are.
\<close>

definition closed_heap :: "heap \<Rightarrow> bool" where
  "closed_heap h \<longleftrightarrow>
     (\<forall>ob\<in>set h. \<forall>kv\<in>set (props ob). case snd kv of VObj a \<Rightarrow> a < length h | _ \<Rightarrow> True)"

definition in_heap :: "heap \<Rightarrow> jsval \<Rightarrow> bool" where
  "in_heap h v = (case v of VObj a \<Rightarrow> a < length h | _ \<Rightarrow> True)"

definition safe_object :: "jsobj \<Rightarrow> bool" where
  "safe_object ob \<longleftrightarrow>
     lookup_hasOwnProperty ob = HasOwnPropertyFn
     \<and> list_all (\<lambda>key. key \<notin> set (intercepted (proto (new_clone ob)))) (keys ob)"

definition safe_heap :: "heap \<Rightarrow> bool" where
  "safe_heap h \<longleftrightarrow> list_all safe_object h"

text \<open>
  The object \<^verbatim>\<open>o\<close> with \<^verbatim>\<open>o.self = o\<close>, alone in a heap; and a heap with two cycles:
  object 0 with \<^verbatim>\<open>self\<close> itself and \<^verbatim>\<open>next\<close> object 1, whose \<^verbatim>\<open>prev\<close> is object 0.
\<close>

definition self_heap :: heap where
  "self_heap = [plain_object [(str ''self'', VObj 0)]]"

definition cycle_heap :: heap where
  "cycle_heap =
     [plain_object [(str ''self'', VObj 0), (str ''next'', VObj 1)],
      plain_object [(str ''prev'', VObj 0), (str ''n'', VNum (Finite 1))]]"




definition fun_heap :: heap where
  "fun_heap = [plain_object [(str ''f'', VFun 7)]]"

text \<open>
  The object \<^verbatim>\<open>Object.create(null)\<close> with a property \<^verbatim>\<open>x\<close> set to 1: it has no prototype,
  so no \<^verbatim>\<open>hasOwnProperty\<close>.
\<close>

definition bare_heap :: heap where
  "bare_heap = [\<lparr>kind = KObject, proto = null_proto, props = [(str ''x'', VNum (Finite 1))]\<rparr>]"

chapter \<open>Properties\<close>

section \<open>parseQuery\<close>

lemma js_split_not_Nil: "js_split sep s \<noteq> []"
  by (induction s) (auto split: list.splits)

lemma js_split_no_sep: "sep \<notin> set a \<Longrightarrow> js_split sep a = [a]"
  by (induction a) auto

lemma js_split_first: "sep \<notin> set a \<Longrightarrow> js_split sep (a @ sep # b) = a # js_split sep b"
  by (induction a) auto

lemma js_split_last: "sep \<notin> set b \<Longrightarrow> js_split sep (a @ sep # b) = js_split sep a @ [b]"
proof (induction a)
  case Nil
  then show ?case by (simp add: js_split_no_sep)
next
  case (Cons c a)
  then show ?case
    using js_split_not_Nil [of sep a] by (cases "js_split sep a") auto
qed

lemma js_split_pieces: "p \<in> set (js_split sep s) \<Longrightarrow> set p \<subseteq> set s"
proof (induction s arbitrary: p)
  case Nil
  then show ?case by simp
next
  case (Cons c s)
  show ?case
  proof (cases "js_split sep s")
    case Nil
    with Cons.prems show ?thesis by (auto split: if_splits)
  next
    case (Cons a list)
    have "set a \<subseteq> set s" using Cons.IH [of a] Cons by simp
    moreover have "\<And>r. r \<in> set list \<Longrightarrow> set r \<subseteq> set s" using Cons.IH Cons by simp
    ultimately show ?thesis
      using Cons.prems Cons by (auto split: if_splits)
  qed
qed

lemma forEach_append:
  "forEach ps (xs @ ys) = (case forEach ps xs of Inl e \<Rightarrow> Inl e | Inr ps' \<Rightarrow> forEach ps' ys)"
  by (induction xs arbitrary: ps) (auto split: sum.splits)

lemma query_of_append: "query_of (q @ 38 # pair) = query_of q @ 38 # pair"
  by (cases q) (auto simp: query_of_def)

lemma parseQuery_last_pair:
  assumes "38 \<notin> set pair" and "parseQuery q = Inr ps"
  shows "parseQuery (q @ 38 # pair) = parseQuery_pair ps pair"
  using assms
  by (simp add: parseQuery_def query_of_append js_split_last forEach_append split: sum.splits)

lemma parseQuery_pair_two_eq:
  assumes "61 \<notin> set k" "61 \<notin> set v1" "k \<noteq> []"
    and "decodeURIComponent k = Inr k'" and "decodeURIComponent v1 = Inr v1'"
  shows "parseQuery_pair ps (k @ 61 # v1 @ 61 # v2) = Inr (set_param ps k' v1')"
proof -
  have "js_split 61 (k @ 61 # v1 @ 61 # v2) = k # v1 # js_split 61 v2"
    using assms by (simp add: js_split_first)
  then show ?thesis
    using assms by (auto simp: parseQuery_pair_def)
qed

lemma parseQuery_pair_empty_key:
  "pair = [] \<or> hd pair = 61 \<Longrightarrow> parseQuery_pair ps pair = Inr ps"
  by (cases pair) (auto simp: parseQuery_pair_def)

lemma parseQuery_pair_no_eq:
  assumes "61 \<notin> set k" "k \<noteq> []" "decodeURIComponent k = Inr k'"
  shows "parseQuery_pair ps k = Inr (set_param ps k' [])"
  using assms by (simp add: parseQuery_pair_def js_split_no_sep)

lemma map_of_set_param:
  "map_of (set_param ps k v) x =
     (if k = str ''__proto__'' then map_of ps x else if x = k then Some v else map_of ps x)"
  by (simp add: set_param_def update_conv')

lemma decodeURIComponent_error: "decodeURIComponent s = Inl e \<Longrightarrow> e = URIError"
proof (induction s rule: decodeURIComponent.induct)
  case 1
  then show ?case by simp
next
  case (2 c cs)
  show ?case
  proof (cases "c = 37")
    case False
    with 2 show ?thesis by (auto split: sum.splits)
  next
    case True
    with "2.prems" "2.IH"(2,3) show ?thesis
      by (auto split: option.splits if_splits sum.splits)
  qed
qed

lemma decodeURIComponent_plain: "37 \<notin> set s \<Longrightarrow> decodeURIComponent s = Inr s"
  by (induction s) auto

lemma parseQuery_pair_result:
  "parseQuery_pair ps pair =
     (if pair_decodes pair then Inr (case parseQuery_pair ps pair of Inr r \<Rightarrow> r | Inl e \<Rightarrow> ps)
      else Inl URIError)"
  by (auto simp: parseQuery_pair_def pair_decodes_def decodes_def Let_def
      split: sum.splits list.splits dest: decodeURIComponent_error)

lemma forEach_result:
  "(list_all pair_decodes pairs \<longrightarrow> (\<exists>r. forEach ps pairs = Inr r)) \<and>
   (\<not> list_all pair_decodes pairs \<longrightarrow> forEach ps pairs = Inl URIError)"
proof (induction pairs arbitrary: ps)
  case Nil
  then show ?case by simp
next
  case (Cons pair pairs)
  show ?case
  proof (cases "pair_decodes pair")
    case True
    then obtain r where "parseQuery_pair ps pair = Inr r"
      using parseQuery_pair_result [of ps pair] by auto
    with True Cons.IH [of r] show ?thesis by simp
  next
    case False
    then have "parseQuery_pair ps pair = Inl URIError"
      using parseQuery_pair_result [of ps pair] by auto
    with False show ?thesis by simp
  qed
qed

lemma pair_decodes_plain: "37 \<notin> set pair \<Longrightarrow> pair_decodes pair"
proof -
  assume a: "37 \<notin> set pair"
  have sub: "\<And>p. p \<in> set (js_split 61 pair) \<Longrightarrow> 37 \<notin> set p"
    using a js_split_pieces by blast
  obtain k rest where s: "js_split 61 pair = k # rest"
    using js_split_not_Nil [of 61 pair] by (cases "js_split 61 pair") auto
  have "decodes k" using sub s by (simp add: decodes_def decodeURIComponent_plain)
  moreover have "case rest of [] \<Rightarrow> True | v # r \<Rightarrow> decodes v"
    using sub s by (cases rest) (simp_all add: decodes_def decodeURIComponent_plain)
  ultimately show ?thesis by (simp add: pair_decodes_def s)
qed

lemma query_of_set: "set (query_of s) \<subseteq> set s"
  by (cases s) (auto simp: query_of_def)

text \<open>
  A separator that is neither \<^verbatim>\<open>%\<close> nor a hexadecimal digit cannot lie inside an escape
  sequence, so the pieces of a string that decodes decode as well.
\<close>

lemma ParseHexOctet_append:
  assumes "ParseHexOctet (x @ c # b) = Some B" and "hexval c = None"
  shows "2 \<le> length x \<and> ParseHexOctet x = Some B"
proof (cases x)
  case Nil
  with assms show ?thesis by (cases b) (auto split: option.splits)
next
  case (Cons h1 y)
  with assms show ?thesis by (cases y) (auto split: option.splits)
qed

lemma continuation_append:
  "continuation j (x @ c # b) = Some bs \<Longrightarrow> c \<noteq> 37 \<Longrightarrow> hexval c = None
    \<Longrightarrow> 3 * j \<le> length x \<and> continuation j x = Some bs"
proof (induction j x arbitrary: bs rule: continuation.induct)
  case (1 s)
  then show ?case by simp
next
  case (2 j)
  then show ?case by simp
next
  case (3 j p t)
  from "3.prems" have p: "p = 37" by (simp split: if_splits)
  from "3.prems" p obtain B where B: "ParseHexOctet (t @ c # b) = Some B"
    by (auto split: option.splits)
  from ParseHexOctet_append [OF B "3.prems"(3)] have t: "2 \<le> length t" "ParseHexOctet t = Some B"
    by simp_all
  from "3.prems" p B obtain bs' where bs': "continuation j (drop 2 t @ c # b) = Some bs'" "bs = B # bs'"
    using t by auto
  from "3.IH" [OF _ t(2) bs'(1) "3.prems"(2,3)] p have "3 * j \<le> length (drop 2 t) \<and> continuation j (drop 2 t) = Some bs'" by simp
  then show ?case using p t bs' by auto
qed

lemma decodes_append:
  "decodes (a @ c # b) \<Longrightarrow> c \<noteq> 37 \<Longrightarrow> hexval c = None \<Longrightarrow> decodes a \<and> decodes b"
proof (induction a rule: decodeURIComponent.induct)
  case 1
  then show ?case by (auto simp: decodes_def split: sum.splits)
next
  case (2 d ds)
  show ?case
  proof (cases "d = 37")
    case False
    with "2.prems" have "decodes (ds @ c # b)" by (auto simp: decodes_def split: sum.splits)
    from "2.IH"(1) [OF False this "2.prems"(2,3)] False show ?thesis
      by (auto simp: decodes_def split: sum.splits)
  next
    case True
    from "2.prems"(1) True obtain B where B: "ParseHexOctet (ds @ c # b) = Some B"
      by (auto simp: decodes_def split: option.splits)
    from ParseHexOctet_append [OF B "2.prems"(3)] have t: "2 \<le> length ds" "ParseHexOctet ds = Some B"
      by simp_all
    show ?thesis
    proof (cases "leading_ones B = 0")
      case l: True
      with "2.prems"(1) True B t have "decodes (drop 2 ds @ c # b)"
        by (auto simp: decodes_def split: sum.splits)
      from "2.IH"(2) [OF _ t(2) l this "2.prems"(2,3)] True t l show ?thesis
        by (auto simp: decodes_def split: sum.splits)
    next
      case l: False
      from "2.prems"(1) True B t l have l2: "\<not> (leading_ones B = 1 \<or> 4 < leading_ones B)"
        by (auto simp: decodes_def split: sum.splits if_splits)
      from "2.prems"(1) True B t l l2 obtain bs where
        bs: "continuation (leading_ones B - 1) (drop 2 ds @ c # b) = Some bs"
        by (auto simp: decodes_def split: sum.splits if_splits option.splits)
      from continuation_append [OF bs "2.prems"(2,3)]
      have k: "3 * (leading_ones B - 1) \<le> length (drop 2 ds)"
        "continuation (leading_ones B - 1) (drop 2 ds) = Some bs" by simp_all
      from "2.prems"(1) True B t l l2 bs obtain V where V: "utf8_value (B # bs) = Some V"
        by (auto simp: decodes_def split: sum.splits if_splits option.splits)
      from "2.prems"(1) True B t l l2 bs V k
      have "decodes (drop (3 * (leading_ones B - 1)) (drop 2 ds) @ c # b)"
        by (auto simp: decodes_def split: sum.splits if_splits option.splits)
      from "2.IH"(3) [OF _ t(2) l l2 k(2) V this "2.prems"(2,3)] True t l l2 k V show ?thesis
        by (auto simp: decodes_def split: sum.splits)
    qed
  qed
qed

lemma js_split_unfold:
  "js_split sep s = takeWhile (\<lambda>c. c \<noteq> sep) s #
     (case dropWhile (\<lambda>c. c \<noteq> sep) s of [] \<Rightarrow> [] | d # rest \<Rightarrow> js_split sep rest)"
  by (induction s) (auto split: list.splits)

lemma js_split_decodes:
  assumes "sep \<noteq> 37" and "hexval sep = None"
  shows "decodes s \<Longrightarrow> p \<in> set (js_split sep s) \<Longrightarrow> decodes p"
proof (induction "length s" arbitrary: s p rule: less_induct)
  case less
  let ?a = "takeWhile (\<lambda>c. c \<noteq> sep) s"
  show ?case
  proof (cases "dropWhile (\<lambda>c. c \<noteq> sep) s")
    case Nil
    then have tw: "?a = s" by (simp add: dropWhile_eq_Nil_conv)
    have "js_split sep s = [?a]" by (subst js_split_unfold) (simp only: Nil list.case)
    then have "js_split sep s = [s]" using tw by simp
    with less.prems show ?thesis by simp
  next
    case (Cons d rest)
    then have d: "d = sep" using hd_dropWhile [of "\<lambda>c. c \<noteq> sep" s] by auto
    have s: "s = ?a @ sep # rest" using Cons d takeWhile_dropWhile_id [of "\<lambda>c. c \<noteq> sep" s] by simp
    then have "decodes (?a @ sep # rest)" using less.prems(1) by simp
    from decodes_append [OF this assms] have da: "decodes ?a" "decodes rest" by simp_all
    have "length rest < length s" using arg_cong [OF s, of length] by simp
    from less.hyps [OF this da(2)] have "q \<in> set (js_split sep rest) \<Longrightarrow> decodes q" for q .
    moreover have "js_split sep s = ?a # js_split sep rest"
      by (subst js_split_unfold) (simp only: Cons list.case)
    ultimately show ?thesis using less.prems(2) da(1) by auto
  qed
qed

lemma decodes_pair_decodes: "decodes pair \<Longrightarrow> pair_decodes pair"
proof -
  assume a: "decodes pair"
  have sub: "\<And>p. p \<in> set (js_split 61 pair) \<Longrightarrow> decodes p"
    using a js_split_decodes [of 61 pair] by (simp add: hexval_def)
  obtain k rest where s: "js_split 61 pair = k # rest"
    using js_split_not_Nil [of 61 pair] by (cases "js_split 61 pair") auto
  have "decodes k" using sub s by simp
  moreover have "case rest of [] \<Rightarrow> True | v # r \<Rightarrow> decodes v"
    using sub s by (cases rest) simp_all
  ultimately show ?thesis by (simp add: pair_decodes_def s)
qed

lemma decodes_query_of: "decodes s \<Longrightarrow> decodes (query_of s)"
  by (cases s) (auto simp: query_of_def decodes_def split: sum.splits)

lemma parseQuery_returns_iff:
  "(\<exists>ps. parseQuery s = Inr ps) \<longleftrightarrow> list_all pair_decodes (js_split 38 (query_of s))"
  using forEach_result [of "js_split 38 (query_of s)" "[]"] by (auto simp: parseQuery_def)

lemma parseQuery_error: "parseQuery s = Inl e \<Longrightarrow> e = URIError"
  using forEach_result [of "js_split 38 (query_of s)" "[]"] by (auto simp: parseQuery_def)

lemma parseQuery_returns_if_decodes:
  assumes "decodes s" shows "\<exists>ps. parseQuery s = Inr ps"
proof -
  have "decodes p" if "p \<in> set (js_split 38 (query_of s))" for p
    using js_split_decodes [of 38 "query_of s" p] that decodes_query_of [OF assms]
    by (simp add: hexval_def)
  then show ?thesis unfolding parseQuery_returns_iff
    by (simp add: list_all_iff decodes_pair_decodes)
qed

lemma decodes_plain: "37 \<notin> set s \<Longrightarrow> decodes s"
  by (simp add: decodes_def decodeURIComponent_plain)

text \<open>
  What the code does with a pair: \<open>parseQuery\<close> splits it at every \<^verbatim>\<open>=\<close> and uses
  the first two pieces only. For a last pair \<^verbatim>\<open>k=v1=v2\<close> with a non-empty key the
  mapping gets the decoded key with the decoded text between the first and the second
  \<^verbatim>\<open>=\<close> (that is \<^verbatim>\<open>v1\<close>; the rest of the pair is dropped), and the key then maps to
  that value unless it decodes to \<^verbatim>\<open>__proto__\<close>; a pair with an empty key (\<^verbatim>\<open>=v1\<close>, or
  the empty pair) contributes nothing; a pair with no \<^verbatim>\<open>=\<close> yields the empty string as
  its value.
\<close>

lemma parseQuery_uses_first_two_pieces:
  assumes "parseQuery q = Inr ps"
    and "38 \<notin> set k" "38 \<notin> set v1" "38 \<notin> set v2"
    and "61 \<notin> set k" "61 \<notin> set v1" "k \<noteq> []"
    and "decodeURIComponent k = Inr k'" "decodeURIComponent v1 = Inr v1'"
  shows "parseQuery (q @ 38 # k @ 61 # v1 @ 61 # v2) = Inr (set_param ps k' v1')
    \<and> parseQuery (q @ 38 # k @ 61 # v1) = Inr (set_param ps k' v1')
    \<and> (k' \<noteq> str ''__proto__'' \<longrightarrow> map_of (set_param ps k' v1') k' = Some v1')
    \<and> parseQuery (q @ 38 # 61 # v1) = Inr ps
    \<and> parseQuery (q @ [38]) = Inr ps
    \<and> parseQuery (q @ 38 # k) = Inr (set_param ps k' [])"
proof -
  have a: "parseQuery (q @ 38 # k @ 61 # v1 @ 61 # v2) = Inr (set_param ps k' v1')"
    using assms by (simp add: parseQuery_last_pair parseQuery_pair_two_eq)
  have "js_split 61 (k @ 61 # v1) = [k, v1]"
    using assms by (simp add: js_split_first js_split_no_sep)
  then have "parseQuery_pair ps (k @ 61 # v1) = Inr (set_param ps k' v1')"
    using assms by (auto simp: parseQuery_pair_def)
  then have b: "parseQuery (q @ 38 # k @ 61 # v1) = Inr (set_param ps k' v1')"
    using assms by (simp add: parseQuery_last_pair)
  have c: "k' \<noteq> str ''__proto__'' \<longrightarrow> map_of (set_param ps k' v1') k' = Some v1'"
    by (simp add: map_of_set_param)
  have d: "parseQuery (q @ 38 # 61 # v1) = Inr ps"
    using assms by (simp add: parseQuery_last_pair parseQuery_pair_empty_key)
  have e: "parseQuery (q @ [38]) = Inr ps"
    using assms parseQuery_last_pair [of "[]" q ps] by (simp add: parseQuery_pair_empty_key)
  have f: "parseQuery (q @ 38 # k) = Inr (set_param ps k' [])"
    using assms by (simp add: parseQuery_last_pair parseQuery_pair_no_eq)
  from a b c d e f show ?thesis by blast
qed

lemma parseQuery_x1: "parseQuery (str ''x=1'') = Inr [(str ''x'', str ''1'')]"
  by (simp add: parseQuery_def query_of_def parseQuery_pair_def str_def set_param_def)

lemma parseQuery_uses_first_two_pieces_instance:
  "parseQuery (str ''x=1&k=v1=v2'') = Inr [(str ''x'', str ''1''), (str ''k'', str ''v1'')]
   \<and> parseQuery (str ''x=1&=v1'') = Inr [(str ''x'', str ''1'')]
   \<and> parseQuery (str ''x=1&k'') = Inr [(str ''x'', str ''1''), (str ''k'', [])]"
proof -
  have d: "decodeURIComponent (str ''k'') = Inr (str ''k'')"
    "decodeURIComponent (str ''v1'') = Inr (str ''v1'')"
    by (simp_all add: str_def)
  have "parseQuery (str ''x=1'' @ 38 # str ''k'' @ 61 # str ''v1'' @ 61 # str ''v2'')
      = Inr (set_param [(str ''x'', str ''1'')] (str ''k'') (str ''v1''))
    \<and> parseQuery (str ''x=1'' @ 38 # 61 # str ''v1'') = Inr [(str ''x'', str ''1'')]
    \<and> parseQuery (str ''x=1'' @ 38 # str ''k'')
      = Inr (set_param [(str ''x'', str ''1'')] (str ''k'') [])"
    using parseQuery_uses_first_two_pieces [OF parseQuery_x1, of "str ''k''" "str ''v1''"
        "str ''v2''" "str ''k''" "str ''v1''"] d
    by (simp add: str_def)
  then show ?thesis
    by (simp add: str_def set_param_def)
qed

text \<open>
  C1: splitting on the first \<^verbatim>\<open>=\<close> only would give \<^verbatim>\<open>k\<close> in \<^verbatim>\<open>k=v1=v2\<close> the value
  \<^verbatim>\<open>v1=v2\<close>, everything after the first \<^verbatim>\<open>=\<close>. The code misses it: \<^verbatim>\<open>pair.split('=')\<close> yields the
  three pieces \<^verbatim>\<open>k\<close>, \<^verbatim>\<open>v1\<close>, \<^verbatim>\<open>v2\<close>, the destructuring keeps two, and the key is
  mapped to \<^verbatim>\<open>v1\<close>.
\<close>

theorem parseQuery_drops_after_second_eq:
  "parseQuery (str ''k=v1=v2'') = Inr [(str ''k'', str ''v1'')]
   \<and> map_of [(str ''k'', str ''v1'')] (str ''k'') \<noteq> Some (str ''v1=v2'')"
  by (simp add: parseQuery_def query_of_def parseQuery_pair_def str_def set_param_def)

text \<open>
  C2 (as the code has it): \<open>toCamelCase\<close> returns a string for every input string.
  \<open>parseQuery\<close> returns a mapping for every input string that is validly
  percent-encoded, that is, one that \<^verbatim>\<open>decodeURIComponent\<close> accepts, and in particular for
  every input without \<^verbatim>\<open>%\<close>; the only error it ever throws is URIError, the decoder's
  exception, which it does not catch.
\<close>

theorem parseQuery_returns_or_URIError:
  "(\<exists>r. toCamelCase up low (VStr s) = Inr r)
   \<and> (decodes s \<longrightarrow> (\<exists>ps. parseQuery s = Inr ps))
   \<and> (37 \<notin> set s \<longrightarrow> (\<exists>ps. parseQuery s = Inr ps))
   \<and> (parseQuery s = Inl e \<longrightarrow> e = URIError)"
proof -
  have "\<exists>r. toCamelCase up low (VStr s) = Inr r" by (simp add: toCamelCase_def)
  moreover have "\<exists>ps. parseQuery s = Inr ps" if "decodes s"
    using that by (rule parseQuery_returns_if_decodes)
  moreover have "\<exists>ps. parseQuery s = Inr ps" if "37 \<notin> set s"
    using that by (intro parseQuery_returns_if_decodes decodes_plain)
  moreover have "e = URIError" if "parseQuery s = Inl e"
    using that by (rule parseQuery_error)
  ultimately show ?thesis by blast
qed

theorem parseQuery_returns_or_URIError_witness:
  "(\<exists>r. toCamelCase ascii_upper ascii_lower (VStr (str ''a=1&b=%41'')) = Inr r)
   \<and> (\<exists>ps. parseQuery (str ''a=1&b=%41'') = Inr ps)
   \<and> (\<exists>ps. parseQuery (str ''a=1&b'') = Inr ps)
   \<and> parseQuery (str ''a=%zz'') = Inl URIError"
proof -
  have "decodes (str ''a=1&b=%41'')"
    by (simp add: str_def decodes_def hexval_def leading_ones_def)
  moreover have "37 \<notin> set (str ''a=1&b'')" by (simp add: str_def)
  moreover have "\<exists>e. parseQuery (str ''a=%zz'') = Inl e"
    by (simp add: parseQuery_def query_of_def parseQuery_pair_def str_def hexval_def)
  ultimately show ?thesis
    using parseQuery_returns_or_URIError [of ascii_upper ascii_lower "str ''a=1&b=%41''"]
      parseQuery_returns_or_URIError [of ascii_upper ascii_lower "str ''a=1&b''"]
      parseQuery_returns_or_URIError [of ascii_upper ascii_lower "str ''a=%zz''"]
    by blast
qed

text \<open>
  C2 as stated fails on the code: the query \<^verbatim>\<open>q=100%\<close> has an invalid percent-encoding
  and \<open>parseQuery\<close> throws URIError instead of returning a mapping.
\<close>

theorem parseQuery_throws_on_bad_escape:
  "parseQuery (str ''q=100%'') = Inl URIError"
  by (simp add: parseQuery_def query_of_def parseQuery_pair_def str_def)

text \<open>The examples of the demo harness and of the specification, as checks of the model.\<close>

lemma parseQuery_examples:
  "parseQuery (str ''?foo=1&bar=2&name=John%20Doe'')
     = Inr [(str ''foo'', str ''1''), (str ''bar'', str ''2''), (str ''name'', str ''John Doe'')]"
  "parseQuery (str ''a&b='') = Inr [(str ''a'', []), (str ''b'', [])]"
  by (simp_all add: parseQuery_def query_of_def parseQuery_pair_def str_def set_param_def
      hexval_def leading_ones_def)

lemma parseQuery_example_utf8:
  "parseQuery (str ''x=%E2%82%AC&__proto__=1'') = Inr [(str ''x'', [8364])]"
  by (simp add: parseQuery_def query_of_def parseQuery_pair_def str_def set_param_def
      hexval_def leading_ones_def is_cont_def UTF16EncodeCodePoint_def numeral_2_eq_2)

lemma toCamelCase_example:
  "toCamelCase ascii_upper ascii_lower (VStr (str ''hello-world_test''))
     = Inr (str ''helloWorldTest'')"
  by (simp add: toCamelCase_def lower_first_def ascii_upper_def ascii_lower_def str_def
      is_delimiter_def is_white_space_def is_line_terminator_def)

section \<open>flatten\<close>

declare flatten.simps [simp del]

lemma foldl_append_concat:
  "foldl (\<lambda>flat t. flat @ g t) acc xs = acc @ concat (map g xs)"
  by (induction xs arbitrary: acc) auto

text \<open>
  C9: for every finitely nested sequence, \<open>flatten\<close> returns the flat sequence of
  exactly the non-sequence elements reached by fully recursive unnesting, in
  left-to-right depth-first order (\<open>leaves\<close>); \<^verbatim>\<open>flatten([1,[2,[3,4],5]])\<close> is
  \<^verbatim>\<open>[1,2,3,4,5]\<close> and \<^verbatim>\<open>flatten([])\<close> is \<^verbatim>\<open>[]\<close>. (Arrays are values here: that the
  result is a fresh array is not expressed.)
\<close>

theorem flatten_is_leaves_in_order:
  "flatten arr = map Elem (leaves (Arr arr))
   \<and> flatten [Elem (1::int), Arr [Elem 2, Arr [Elem 3, Elem 4], Elem 5]]
       = [Elem 1, Elem 2, Elem 3, Elem 4, Elem 5]
   \<and> flatten ([] :: int nested list) = []"
proof -
  have main: "flatten xs = map Elem (concat (map leaves xs))" for xs :: "'b nested list"
  proof (induction xs rule: flatten.induct)
    case (1 arr)
    have step: "concat_js flat (case t of Arr ys \<Rightarrow> Arr (flatten ys) | Elem x \<Rightarrow> t)
        = flat @ map Elem (leaves t)"
      if "t \<in> set arr" for flat t
    proof (cases t)
      case (Elem x)
      then show ?thesis by (simp add: concat_js_def)
    next
      case (Arr ys)
      with "1.IH" [OF that Arr] show ?thesis by (simp add: concat_js_def)
    qed
    have "flatten arr = foldl (\<lambda>flat t. flat @ map Elem (leaves t)) [] arr"
      unfolding flatten.simps [of arr]
      by (rule foldl_cong) (auto simp: step)
    then show ?case
      by (simp add: foldl_append_concat map_concat comp_def)
  qed
  show ?thesis by (simp add: main)
qed

theorem flatten_is_leaves_in_order_witness:
  "flatten [Arr [], Elem (7::int), Arr [Arr [Elem 8], Elem 9]] = [Elem 7, Elem 8, Elem 9]"
  using flatten_is_leaves_in_order [of "[Arr [], Elem (7::int), Arr [Arr [Elem 8], Elem 9]]"]
  by simp

section \<open>curry\<close>

lemma call_chain_partial:
  "length (args @ concat rest) < arity \<Longrightarrow>
     call_chain arity fn (Partial args) rest = Some (Partial (args @ concat rest))"
  by (induction rest arbitrary: args) (auto simp: curried_def)

lemma call_chain_result:
  "rest \<noteq> [] \<Longrightarrow> length (args @ concat (butlast rest)) < arity \<Longrightarrow>
   arity \<le> length (args @ concat rest) \<Longrightarrow>
     call_chain arity fn (Partial args) rest = Some (Result (fn (args @ concat rest)))"
proof (induction rest arbitrary: args)
  case Nil
  then show ?case by simp
next
  case (Cons m rest)
  show ?case
  proof (cases "rest = []")
    case True
    with Cons.prems show ?thesis by (simp add: curried_def)
  next
    case False
    with Cons.prems have "length (args @ m) < arity" by simp
    then have "curried arity fn (args @ m) = Partial (args @ m)"
      by (simp add: curried_def)
    moreover have "call_chain arity fn (Partial (args @ m)) rest
        = Some (Result (fn ((args @ m) @ concat rest)))"
      using Cons.prems False by (intro Cons.IH) auto
    ultimately show ?thesis by simp
  qed
qed

text \<open>
  C7: for a chain of calls \<^verbatim>\<open>f(a0)(a1)...(an)\<close> of \<^verbatim>\<open>f = curry(fn)\<close>: when every call
  before the last leaves the accumulated arguments below the arity (there may be no such
  call) and the last call reaches or exceeds it, \<open>fn\<close> is applied to all accumulated
  arguments in call order and its result is returned; in particular a function of arity 0
  is invoked at the first call, whatever it is given. When the arguments stay below the
  arity, the chain returns a callable holding the enlarged argument list, which repeats
  the check at its next call. For \<^verbatim>\<open>curry((a,b,c) => a+b+c)\<close>, \<^verbatim>\<open>f(1)(2)(3)\<close> and \<^verbatim>\<open>f(1,2)(3)\<close>
  are 6.
\<close>

theorem curry_accumulates_arguments:
  "((rest = [] \<or> length (concat (butlast (args # rest))) < arity)
      \<and> arity \<le> length (concat (args # rest))
      \<longrightarrow> curry arity fn (args # rest) = Some (Result (fn (concat (args # rest)))))
   \<and> (length (concat (args # rest)) < arity
      \<longrightarrow> curry arity fn (args # rest) = Some (Partial (concat (args # rest)))
        \<and> curry arity fn (args # rest @ [further])
            = Some (curried arity fn (concat (args # rest) @ further)))
   \<and> curry 0 fn [args] = Some (Result (fn args))
   \<and> curry 3 add3 [[1], [2], [3]] = Some (Result (Some 6))
   \<and> curry 3 add3 [[1, 2], [3]] = Some (Result (Some 6))"
proof -
  have r: "curry arity fn (args # rest) = Some (Result (fn (concat (args # rest))))"
    if "rest = [] \<or> length (concat (butlast (args # rest))) < arity"
      "arity \<le> length (concat (args # rest))"
  proof (cases "rest = []")
    case True
    with that show ?thesis by (simp add: curry_def curried_def)
  next
    case False
    with that have "length args < arity" by simp
    then have "curried arity fn args = Partial args" by (simp add: curried_def)
    then show ?thesis
      using that False call_chain_result [of rest args arity fn] by (simp add: curry_def)
  qed
  have p: "curry arity fn (args # rest) = Some (Partial (concat (args # rest)))"
    if "length (concat (args # rest)) < arity"
  proof -
    from that have "curried arity fn args = Partial args" by (simp add: curried_def)
    then show ?thesis
      using that call_chain_partial [of args rest arity fn] by (simp add: curry_def)
  qed
  have chain_snoc: "call_chain arity fn out (xs @ [further])
      = (case call_chain arity fn out xs of None \<Rightarrow> None
         | Some (Result x) \<Rightarrow> None
         | Some (Partial a) \<Rightarrow> Some (curried arity fn (a @ further)))" for out xs
    by (induction arity fn out xs rule: call_chain.induct) (auto split: curry_out.splits)
  have m: "curry arity fn (args # rest @ [further])
      = Some (curried arity fn (concat (args # rest) @ further))"
    if "length (concat (args # rest)) < arity"
    using p [OF that] by (simp add: curry_def chain_snoc)
  have z: "curry 0 fn [args] = Some (Result (fn args))"
    by (simp add: curry_def curried_def)
  have e1: "curry 3 add3 [[1], [2], [3]] = Some (Result (Some 6))"
    by (simp add: curry_def curried_def add3_def)
  have e2: "curry 3 add3 [[1, 2], [3]] = Some (Result (Some 6))"
    by (simp add: curry_def curried_def add3_def)
  from r p m z e1 e2 show ?thesis by blast
qed

theorem curry_accumulates_arguments_witness:
  "curry 3 add3 [[4], [], [5, 6]] = Some (Result (Some 15))
   \<and> curry 3 add3 [[4], [5]] = Some (Partial [4, 5])
   \<and> curry 3 add3 [[4], [5], [6, 7]] = Some (Result (Some 15))
   \<and> curry 0 (\<lambda>xs. length xs) [[4, 5 :: int]] = Some (Result 2)
   \<and> curry 0 (\<lambda>xs. length xs) [[] :: int list] = Some (Result 0)"
proof -
  have "curry 3 add3 ([4] # [[], [5, 6]]) = Some (Result (add3 (concat ([4] # [[], [5, 6]]))))"
    using curry_accumulates_arguments [of "[[], [5, 6]]" "[4]" 3 add3] by simp
  moreover have "curry 3 add3 ([4] # [[5]]) = Some (Partial (concat ([4] # [[5]])))
      \<and> curry 3 add3 ([4] # [[5]] @ [[6, 7]])
        = Some (curried 3 add3 (concat ([4] # [[5]]) @ [6, 7]))"
    using curry_accumulates_arguments [of "[[5]]" "[4]" 3 add3 "[6, 7]"] by simp
  moreover have "curry 0 (\<lambda>xs. length xs) ([4, 5 :: int] # []) 
      = Some (Result (length (concat ([4, 5 :: int] # []))))"
    using curry_accumulates_arguments [of "[]" "[4, 5 :: int]" 0 "\<lambda>xs. length xs"] by simp
  moreover have "curry 0 (\<lambda>xs. length xs) (([] :: int list) # []) 
      = Some (Result (length (concat (([] :: int list) # []))))"
    using curry_accumulates_arguments [of "[]" "[] :: int list" 0 "\<lambda>xs. length xs"] by simp
  ultimately show ?thesis by (simp add: add3_def curried_def)
qed

section \<open>memoize\<close>

lemma memoized_keeps_entry:
  "fst st key = Some r \<Longrightarrow> fst (snd (memoized stringify fn a st)) key = Some r"
  by (auto simp: memoized_def split: sum.splits option.splits prod.splits)

lemma run_calls_keeps_entry:
  "fst st key = Some r \<Longrightarrow> fst (run_calls stringify fn st calls) key = Some r"
  unfolding run_calls_def
  by (induction calls arbitrary: st) (simp_all add: memoized_keeps_entry)

lemma memoized_hit:
  "stringify a = Inr key \<Longrightarrow> fst st key = Some r \<Longrightarrow> memoized stringify fn a st = (Inr r, st)"
  by (simp add: memoized_def)

text \<open>
  C6: for \<^verbatim>\<open>g = memoize(f)\<close>, a first call with an argument list whose key is not yet in
  the cache applies \<open>fn\<close> once, returns its result \<open>r\<close> and stores it under the key;
  after any further calls of \<open>g\<close>, every call whose argument list has the same
  serialization returns \<open>r\<close> and leaves the cache and the world as they are, so \<open>fn\<close>
  is not invoked again. Calling \<open>g\<close> twice with \<^verbatim>\<open>(2,3)\<close> invokes \<open>f\<close> exactly once (the
  counter of \<open>counting f\<close> is 1) and both calls return the same result.
\<close>

theorem memoize_returns_stored_result:
  assumes "stringify args = Inr key" and "cache key = None"
    and "fn args w = (Inr r, w')"
    and "st = run_calls stringify fn (snd (memoized stringify fn args (cache, w))) calls"
    and "stringify args' = Inr key"
  shows "memoized stringify fn args (cache, w) = (Inr r, (cache(key \<mapsto> r), w'))
    \<and> memoized stringify fn args' st = (Inr r, st)
    \<and> (\<forall>sfy f k. sfy [2, 3 :: int] = Inr k \<longrightarrow>
          memoized sfy (counting f) [2, 3] (Map.empty, 0) = (Inr (f [2, 3]), ([k \<mapsto> f [2, 3]], 1))
          \<and> memoized sfy (counting f) [2, 3] ([k \<mapsto> f [2, 3]], 1)
              = (Inr (f [2, 3]), ([k \<mapsto> f [2, 3]], 1)))"
proof -
  have first: "memoized stringify fn args (cache, w) = (Inr r, (cache(key \<mapsto> r), w'))"
    using assms(1-3) by (simp add: memoized_def)
  then have "fst (snd (memoized stringify fn args (cache, w))) key = Some r" by simp
  then have "fst st key = Some r"
    unfolding assms(4) by (rule run_calls_keeps_entry)
  then have later: "memoized stringify fn args' st = (Inr r, st)"
    using assms(5) by (simp add: memoized_hit)
  have twice: "memoized sfy (counting f) [2, 3] (Map.empty, 0)
        = (Inr (f [2, 3]), ([k \<mapsto> f [2, 3]], 1))
      \<and> memoized sfy (counting f) [2, 3] ([k \<mapsto> f [2, 3]], 1)
        = (Inr (f [2, 3]), ([k \<mapsto> f [2, 3]], 1))"
    if "sfy [2, 3 :: int] = Inr k"
    for sfy :: "int list \<Rightarrow> error + 'e" and f :: "int list \<Rightarrow> 'f" and k
    using that by (simp add: memoized_def counting_def)
  from first later twice show ?thesis by blast
qed

theorem memoize_returns_stored_result_witness:
  "memoized Inr (counting sum_list) [2, 3 :: int]
      (run_calls Inr (counting sum_list) ([[2, 3] \<mapsto> 5], 1) [[1, 1], [2, 3]])
    = (Inr 5, run_calls Inr (counting sum_list) ([[2, 3] \<mapsto> 5], 1) [[1, 1], [2, 3]])
   \<and> snd (run_calls Inr (counting sum_list) ([[2, 3] \<mapsto> 5 :: int], 1) [[1, 1], [2, 3]]) = 2"
proof -
  define st where "st = run_calls Inr (counting sum_list)
    (snd (memoized Inr (counting sum_list) [2, 3 :: int] (Map.empty, 0))) [[1, 1], [2, 3]]"
  have one: "snd (memoized Inr (counting sum_list) [2, 3 :: int] (Map.empty, 0))
      = ([[2, 3] \<mapsto> 5], 1)"
    by (simp add: memoized_def counting_def)
  have "memoized Inr (counting sum_list) [2, 3 :: int] st = (Inr 5, st)"
    by (rule memoize_returns_stored_result [of Inr "[2, 3]" "[2, 3]" Map.empty
          "counting sum_list" 0 5 1 st "[[1, 1], [2, 3]]" "[2, 3]", THEN conjunct2, THEN conjunct1])
      (simp_all add: counting_def st_def)
  moreover have "snd (run_calls Inr (counting sum_list) ([[2, 3] \<mapsto> 5 :: int], 1) [[1, 1], [2, 3]]) = 2"
    by (simp add: run_calls_def memoized_def counting_def)
  ultimately show ?thesis by (simp add: st_def one)
qed

section \<open>debounce\<close>

lemma wrapper_state_iff:
  "wrapper_state st \<longleftrightarrow>
     pending st = [] \<or> (\<exists>i due a. pending st = [(i, due, a)] \<and> timeoutId st = Some i)"
  by (auto simp: wrapper_state_def split: list.splits)

text \<open>
  A call leaves one pending timer, the one \<^verbatim>\<open>timeoutId\<close> names, with the arguments of the
  call and due \<open>delay\<close> later; the call itself invokes nothing.
\<close>

lemma debounced_after_advance:
  assumes "wrapper_state st" and "clock st \<le> t"
  shows "\<exists>i. pending (debounced delay args (advance t st)) = [(i, t + delay, args)]
      \<and> timeoutId (debounced delay args (advance t st)) = Some i
      \<and> invoked (debounced delay args (advance t st)) = invoked (advance t st)
      \<and> clock (debounced delay args (advance t st)) = t"
  using assms unfolding wrapper_state_iff
  by (auto simp: debounced_def advance_def clearTimeout_def setTimeout_def max_def)

lemma wrapper_state_debounced:
  "wrapper_state st \<Longrightarrow> wrapper_state (debounced delay args (advance t st))"
  unfolding wrapper_state_iff
  by (auto simp: debounced_def advance_def clearTimeout_def setTimeout_def)

lemma wrapper_state_advance:
  "wrapper_state st \<Longrightarrow> wrapper_state (advance t st)"
  unfolding wrapper_state_iff by (auto simp: advance_def split: if_splits)

lemma wrapper_state_run_burst:
  "wrapper_state st \<Longrightarrow> wrapper_state (run_burst delay calls st)"
  by (induction delay calls st rule: run_burst.induct) (simp_all add: wrapper_state_debounced)

lemma wrapper_state_initial: "wrapper_state initial"
  by (simp add: wrapper_state_def initial_def)

lemma advance_idle: "pending st = [] \<Longrightarrow> invoked (advance t st) = invoked st"
  by (simp add: advance_def)

text \<open>
  Between two calls of a burst: one timer is pending, it is the one \<^verbatim>\<open>timeoutId\<close> names,
  it carries the arguments of the last call and is due \<open>delay\<close> after it, and \<^verbatim>\<open>func\<close> has
  not been invoked since the burst began.
\<close>

lemma run_burst_pending:
  assumes "\<exists>i. pending st = [(i, t + delay, a)] \<and> timeoutId st = Some i"
    and "clock st = t" and "within_window delay (t # map fst burst)"
  shows "\<exists>i. pending (run_burst delay burst st)
        = [(i, last (t # map fst burst) + delay, last (a # map snd burst))]
      \<and> timeoutId (run_burst delay burst st) = Some i
      \<and> invoked (run_burst delay burst st) = invoked st
      \<and> clock (run_burst delay burst st) = last (t # map fst burst)"
  using assms
proof (induction burst arbitrary: st t a)
  case Nil
  then show ?case by simp
next
  case (Cons c burst)
  obtain t' a' where c: "c = (t', a')" by (cases c)
  from Cons.prems(3) c have w: "t \<le> t'" "t' < t + delay" "within_window delay (t' # map fst burst)"
    by simp_all
  let ?st = "debounced delay a' (advance t' st)"
  have ws: "wrapper_state st" using Cons.prems(1) unfolding wrapper_state_iff by blast
  have quiet: "invoked (advance t' st) = invoked st"
    using Cons.prems(1) w(2) by (auto simp: advance_def)
  from debounced_after_advance [OF ws, of t' delay a'] Cons.prems(2) w(1) quiet
  have "\<exists>i. pending ?st = [(i, t' + delay, a')] \<and> timeoutId ?st = Some i"
    and i: "invoked ?st = invoked st" and "clock ?st = t'"
    by auto
  from Cons.IH [OF this(1) this(3) w(3)] c i show ?case by simp
qed

text \<open>
  C8, with the host's timers idealised (a timer fires exactly when it is due). The
  debounced function \<^verbatim>\<open>g = debounce(fn, delay)\<close> is in any state it can be in: fresh, or
  after any earlier calls, with or without a timer of an earlier call still pending, and
  with any log of earlier invocations. For a burst of one or more calls of \<open>g\<close> from then
  on, each less than \<open>delay\<close> after the call before it: the first call cancels the timer
  that was pending, if it had not fired by then; no invocation of \<open>fn\<close> happens during the
  burst; and once the clock has reached \<open>delay\<close> after the last call, the burst has added
  exactly one invocation to the log, at that time and with the last call's arguments. The
  timers that the earlier calls had set were cancelled and never fire, and the state is
  again one the next burst can start from. The fresh state, and every state reached
  from it by calls and the passing of time, is such a state.
\<close>

theorem debounce_one_trailing_invocation:
  assumes "wrapper_state st" and "burst \<noteq> []" and "clock st \<le> fst (hd burst)"
    and "within_window delay (map fst burst)"
    and "fst (last burst) + delay \<le> T"
  shows "invoked (run_burst delay burst st) = invoked (advance (fst (hd burst)) st)
    \<and> invoked (advance T (run_burst delay burst st))
        = invoked (advance (fst (hd burst)) st) @ [(fst (last burst) + delay, snd (last burst))]
    \<and> pending (advance T (run_burst delay burst st)) = []
    \<and> (\<forall>T' \<ge> T. invoked (advance T' (advance T (run_burst delay burst st)))
        = invoked (advance (fst (hd burst)) st) @ [(fst (last burst) + delay, snd (last burst))])
    \<and> wrapper_state (advance T (run_burst delay burst st))
    \<and> clock (advance T (run_burst delay burst st)) = T
    \<and> wrapper_state (advance U (run_burst delay earlier initial))"
proof -
  from assms(2) obtain t a rest where b: "burst = (t, a) # rest"
    by (cases burst) auto
  let ?st = "debounced delay a (advance t st)"
  have "clock st \<le> t" using assms(3) b by simp
  from debounced_after_advance [OF assms(1) this, of delay a]
  have "\<exists>i. pending ?st = [(i, t + delay, a)] \<and> timeoutId ?st = Some i"
    and i: "invoked ?st = invoked (advance t st)" and "clock ?st = t"
    by auto
  moreover have "within_window delay (t # map fst rest)" using assms(4) b by simp
  ultimately obtain i where
    r: "pending (run_burst delay rest ?st)
          = [(i, last (t # map fst rest) + delay, last (a # map snd rest))]"
      "invoked (run_burst delay rest ?st) = invoked ?st"
      "clock (run_burst delay rest ?st) = last (t # map fst rest)"
    using run_burst_pending [of ?st t delay a rest] by blast
  have l: "last (t # map fst rest) = fst (last burst)" "last (a # map snd rest) = snd (last burst)"
    using b by (simp_all add: last_map)
  have run: "run_burst delay burst st = run_burst delay rest ?st" using b by simp
  have h: "fst (hd burst) = t" using b by simp
  have e: "wrapper_state (advance U (run_burst delay earlier initial))"
    by (intro wrapper_state_advance wrapper_state_run_burst wrapper_state_initial)
  have "wrapper_state (advance T (run_burst delay burst st))"
    by (intro wrapper_state_advance wrapper_state_run_burst assms(1))
  with e show ?thesis
    using r i assms(5) unfolding run l h
    by (auto simp: advance_def)
qed

theorem debounce_one_trailing_invocation_witness:
  "invoked (run_burst 500 [(0, [1]), (100, [2]), (450, [3 :: int])] initial) = []
   \<and> invoked (advance 950 (run_burst 500 [(0, [1]), (100, [2]), (450, [3 :: int])] initial))
       = [(950, [3])]
   \<and> invoked (run_burst 500 [(2000, [4]), (2400, [5])]
        (advance 950 (run_burst 500 [(0, [1]), (100, [2]), (450, [3 :: int])] initial)))
       = [(950, [3])]
   \<and> invoked (advance 2900 (run_burst 500 [(2000, [4]), (2400, [5])]
        (advance 950 (run_burst 500 [(0, [1]), (100, [2]), (450, [3 :: int])] initial))))
       = [(950, [3]), (2900, [5])]"
proof -
  let ?b = "[(0, [1]), (100, [2]), (450, [3 :: int])]"
  let ?c = "[(2000, [4]), (2400, [5 :: int])]"
  let ?st = "advance 950 (run_burst 500 ?b initial)"
  have i0: "invoked (advance 0 (initial :: int debounce_state)) = []"
    by (simp add: advance_idle initial_def)
  have c0: "clock (initial :: int debounce_state) = 0" by (simp add: initial_def)
  have first: "invoked (run_burst 500 ?b initial) = []
      \<and> invoked ?st = [(950, [3])] \<and> pending ?st = [] \<and> wrapper_state ?st \<and> clock ?st = 950"
    using debounce_one_trailing_invocation [of "initial :: int debounce_state" ?b 500 950 0 "[]"]
      wrapper_state_initial [where ?'a = int] i0 c0
    by (simp del: run_burst.simps) blast
  then have i1: "invoked (advance 2000 ?st) = [(950, [3])]"
    by (simp add: advance_idle del: run_burst.simps)
  have "invoked (run_burst 500 ?c ?st) = [(950, [3])]
      \<and> invoked (advance 2900 (run_burst 500 ?c ?st)) = [(950, [3]), (2900, [5])]"
    using debounce_one_trailing_invocation [of ?st ?c 500 2900 0 "[]"] first i1
    by (simp del: run_burst.simps) blast
  with first show ?thesis by blast
qed

section \<open>deepClone of an acyclic value\<close>








lemma strict_eq_refl: "strict_eq a a \<longleftrightarrow> a \<noteq> VNum NaN"
  by (simp add: strict_eq_def)





lemma hasOwnProperty_builtin:
  "lookup_hasOwnProperty ob = HasOwnPropertyFn
     \<Longrightarrow> hasOwnProperty ob key = Inr (key \<in> set (keys ob))"
  by (simp add: hasOwnProperty_def)

lemma hasOwnProperty_True: "hasOwnProperty ob key = Inr True \<Longrightarrow> key \<in> set (keys ob)"
  by (auto simp: hasOwnProperty_def split: if_splits)

text \<open>The inherited keys that \<^verbatim>\<open>for ... in\<close> visits are skipped by the built-in test.\<close>

lemma deepClone_props_skip:
  "lookup_hasOwnProperty (h ! a) = HasOwnPropertyFn \<Longrightarrow> \<forall>key\<in>set ks. key \<notin> set (keys (h ! a))
     \<Longrightarrow> deepClone_props n a c ks (h, hash) = Some (Inr (h, hash))"
  by (induction ks) (simp_all add: hasOwnProperty_builtin)




lemma new_clone_kind: "kind (new_clone ob) = kind ob" "props (new_clone ob) = []"
  by (cases "kind ob"; simp add: new_clone_def)+



section \<open>deepClone on any heap: frame and termination\<close>

lemma assign_frame:
  "assign h c key v = Inr h' \<Longrightarrow> length h' = length h \<and> (\<forall>x. x \<noteq> c \<longrightarrow> h' ! x = h ! x)"
  by (auto simp: assign_def split: if_splits)

lemma assign_self:
  assumes "assign h c key v = Inr h'" "c < length h"
  shows "map_of (props (h' ! c)) s = (if key = s then Some v else map_of (props (h ! c)) s)"
  using assms by (auto simp: assign_def update_conv' split: if_splits)

lemma assign_proto:
  "assign h c key v = Inr h' \<Longrightarrow> c < length h \<Longrightarrow> proto (h' ! c) = proto (h ! c)"
  by (auto simp: assign_def split: if_splits)

lemma assign_safe:
  "key \<notin> set (intercepted (proto (h ! c))) \<Longrightarrow> \<exists>h'. assign h c key v = Inr h'"
  by (simp add: assign_def)

lemma deepClone_props_frame:
  assumes IH: "\<And>v h hash v' h' hash'. deepClone m v (h, hash) = Some (Inr (v', (h', hash')))
      \<Longrightarrow> length h \<le> length h' \<and> (\<forall>x<length h. h' ! x = h ! x) \<and> hash \<subseteq>\<^sub>m hash'"
  shows "deepClone_props m a c ks (h, hash) = Some (Inr (h', hash'))
    \<Longrightarrow> length h \<le> length h' \<and> (\<forall>x<length h. x \<noteq> c \<longrightarrow> h' ! x = h ! x) \<and> hash \<subseteq>\<^sub>m hash'"
proof (induction ks arbitrary: h hash)
  case Nil
  then show ?case by simp
next
  case (Cons key ks)
  show ?case
  proof (cases "hasOwnProperty (h ! a) key")
    case (Inl e)
    with Cons.prems show ?thesis by simp
  next
    case (Inr b)
    show ?thesis
    proof (cases b)
      case False
      with Cons Inr show ?thesis by simp
    next
      case True
      with Cons.prems Inr obtain v1 h1 hash1 h2 where
        r: "deepClone m (get (h ! a) key) (h, hash) = Some (Inr (v1, (h1, hash1)))"
        and as: "assign h1 c key v1 = Inr h2"
        and rest: "deepClone_props m a c ks (h2, hash1) = Some (Inr (h', hash'))"
        by (auto split: option.splits sum.splits)
      from IH [OF r] have f1: "length h \<le> length h1" "\<forall>x<length h. h1 ! x = h ! x"
        "hash \<subseteq>\<^sub>m hash1" by auto
      from assign_frame [OF as] have f2: "length h2 = length h1" "\<forall>x. x \<noteq> c \<longrightarrow> h2 ! x = h1 ! x"
        by auto
      from Cons.IH [OF rest] have f3: "length h2 \<le> length h'"
        "\<forall>x<length h2. x \<noteq> c \<longrightarrow> h' ! x = h2 ! x" "hash1 \<subseteq>\<^sub>m hash'" by auto
      have "hash \<subseteq>\<^sub>m hash'" using f1(3) f3(3) by (rule map_le_trans)
      moreover have "length h \<le> length h'" using f1(1) f2(1) f3(1) by simp
      moreover have "\<forall>x<length h. x \<noteq> c \<longrightarrow> h' ! x = h ! x"
        using f1 f2 f3 by auto
      ultimately show ?thesis by simp
    qed
  qed
qed

lemma deepClone_frame:
  "deepClone n v (h, hash) = Some (Inr (v', (h', hash')))
     \<Longrightarrow> length h \<le> length h' \<and> (\<forall>x<length h. h' ! x = h ! x) \<and> hash \<subseteq>\<^sub>m hash'"
proof (induction n arbitrary: v h hash v' h' hash')
  case 0
  then show ?case by simp
next
  case (Suc m)
  show ?case
  proof (cases "\<exists>a. v = VObj a \<and> hash a = None")
    case False
    with Suc.prems have "h' = h" "hash' = hash"
      by (cases v; auto split: option.splits)+
    then show ?thesis by simp
  next
    case True
    then obtain a where v: "v = VObj a" "hash a = None" by blast
    with Suc.prems have
      r: "deepClone_props m a (length h) (for_in_keys (h ! a))
            (h @ [new_clone (h ! a)], hash(a \<mapsto> length h)) = Some (Inr (h', hash'))"
      by (auto split: option.splits sum.splits)
    have "length (h @ [new_clone (h ! a)]) \<le> length h'
        \<and> (\<forall>x<length (h @ [new_clone (h ! a)]). x \<noteq> length h \<longrightarrow> h' ! x = (h @ [new_clone (h ! a)]) ! x)
        \<and> hash(a \<mapsto> length h) \<subseteq>\<^sub>m hash'"
      using r by (rule deepClone_props_frame [rotated]) (rule Suc.IH)
    moreover have "hash \<subseteq>\<^sub>m hash(a \<mapsto> length h)" using v(2) by (auto simp: map_le_def)
    ultimately show ?thesis
      by (auto simp: nth_append intro: map_le_trans)
  qed
qed


lemma closed_heap_get: "closed_heap h0 \<Longrightarrow> a < length h0 \<Longrightarrow> in_heap h0 (get (h0 ! a) key)"
proof -
  assume c: "closed_heap h0" and a: "a < length h0"
  show "in_heap h0 (get (h0 ! a) key)"
  proof (cases "map_of (props (h0 ! a)) key")
    case None
    then show ?thesis by (simp add: get_def in_heap_def)
  next
    case (Some v)
    then have "(key, v) \<in> set (props (h0 ! a))" by (rule map_of_SomeD)
    moreover have "h0 ! a \<in> set h0" using a by simp
    ultimately have "case v of VObj a \<Rightarrow> a < length h0 | _ \<Rightarrow> True"
      using c unfolding closed_heap_def by fastforce
    with Some show ?thesis by (simp add: get_def in_heap_def)
  qed
qed

lemma unvisited_mono:
  "hash \<subseteq>\<^sub>m hash' \<Longrightarrow> card ({..<k::nat} - dom hash') \<le> card ({..<k} - dom hash)"
  by (rule card_mono) (auto dest: map_le_implies_dom_le)

lemma deepClone_props_terminates:
  assumes IH: "\<And>v h hash. \<lbrakk>length h0 \<le> length h; \<forall>x<length h0. h ! x = h0 ! x; in_heap h0 v;
        card ({..<length h0} - dom hash) < m\<rbrakk>
      \<Longrightarrow> \<exists>r. deepClone m v (h, hash) = Some r \<and> (safe_heap h0 \<longrightarrow> (\<exists>res. r = Inr res))"
    and cl: "closed_heap h0" "a < length h0" "length h0 \<le> c"
  shows "\<lbrakk>length h0 \<le> length h; \<forall>x<length h0. h ! x = h0 ! x;
      card ({..<length h0} - dom hash) < m; c < length h;
      proto (h ! c) = proto (new_clone (h0 ! a))\<rbrakk>
    \<Longrightarrow> \<exists>r. deepClone_props m a c ks (h, hash) = Some r \<and> (safe_heap h0 \<longrightarrow> (\<exists>res. r = Inr res))"
proof (induction ks arbitrary: h hash)
  case Nil
  then show ?case by simp
next
  case (Cons key ks)
  have ha: "h ! a = h0 ! a" using Cons.prems(2) cl(2) by simp
  have mem: "h0 ! a \<in> set h0" using cl(2) by simp
  have sf: "hasOwnProperty (h ! a) key = Inr (key \<in> set (keys (h0 ! a)))"
    "key \<in> set (keys (h0 ! a)) \<longrightarrow> key \<notin> set (intercepted (proto (new_clone (h0 ! a))))"
    if "safe_heap h0"
  proof -
    from that mem have n: "safe_object (h0 ! a)"
      unfolding safe_heap_def list_all_iff by blast
    from n ha show "hasOwnProperty (h ! a) key = Inr (key \<in> set (keys (h0 ! a)))"
      by (simp add: hasOwnProperty_builtin safe_object_def)
    from n show "key \<in> set (keys (h0 ! a))
        \<longrightarrow> key \<notin> set (intercepted (proto (new_clone (h0 ! a))))"
      by (simp add: safe_object_def list_all_iff)
  qed
  show ?case
  proof (cases "hasOwnProperty (h ! a) key")
    case (Inl e)
    with sf(1) show ?thesis by auto
  next
    case (Inr b)
    show ?thesis
    proof (cases b)
      case False
      with Inr Cons.IH [OF Cons.prems(1-5)] show ?thesis by simp
    next
      case True
      have own: "key \<in> set (keys (h0 ! a))"
        using Inr True ha hasOwnProperty_True [of "h ! a" key] by simp
      have "in_heap h0 (get (h ! a) key)" using closed_heap_get [OF cl(1,2)] ha by simp
      from IH [OF Cons.prems(1,2) this Cons.prems(3)]
      obtain r where r: "deepClone m (get (h ! a) key) (h, hash) = Some r"
        and rs: "safe_heap h0 \<longrightarrow> (\<exists>res. r = Inr res)" by blast
      show ?thesis
      proof (cases r)
        case (Inl e)
        with r rs Inr True show ?thesis by auto
      next
        case (Inr res)
        obtain v1 h1 hash1 where res: "res = (v1, (h1, hash1))" by (cases res) auto
        from deepClone_frame [of m "get (h ! a) key" h hash v1 h1 hash1] r Inr res
        have f1: "length h \<le> length h1" "\<forall>x<length h. h1 ! x = h ! x" "hash \<subseteq>\<^sub>m hash1"
          by auto
        have c1: "c < length h1" "proto (h1 ! c) = proto (new_clone (h0 ! a))"
          using f1(1,2) Cons.prems(4,5) by simp_all
        show ?thesis
        proof (cases "assign h1 c key v1")
          case (Inl e)
          moreover have "\<not> safe_heap h0"
            using Inl sf(2) own assign_safe [of key h1 c v1] c1(2) by auto
          ultimately show ?thesis
            using r \<open>r = Inr res\<close> res \<open>hasOwnProperty (h ! a) key = Inr b\<close> True by simp
        next
          case asg: (Inr h2)
          from assign_frame [OF asg] have f2: "length h2 = length h1"
            "\<forall>x. x \<noteq> c \<longrightarrow> h2 ! x = h1 ! x" by auto
          have p1: "length h0 \<le> length h2" using Cons.prems(1) f1(1) f2(1) by simp
          have p2: "\<forall>x<length h0. h2 ! x = h0 ! x"
            using Cons.prems(1,2) f1(2) f2(2) cl(3) by auto
          have p3: "card ({..<length h0} - dom hash1) < m"
            using unvisited_mono [OF f1(3), of "length h0"] Cons.prems(3) by simp
          have p4: "c < length h2" using c1(1) f2(1) by simp
          have p5: "proto (h2 ! c) = proto (new_clone (h0 ! a))"
            using assign_proto [OF asg c1(1)] c1(2) by simp
          from Cons.IH [OF p1 p2 p3 p4 p5] obtain r' where
            "deepClone_props m a c ks (h2, hash1) = Some r'" "safe_heap h0 \<longrightarrow> (\<exists>res. r' = Inr res)"
            by blast
          with r \<open>r = Inr res\<close> res \<open>hasOwnProperty (h ! a) key = Inr b\<close> True asg
          show ?thesis by simp
        qed
      qed
    qed
  qed
qed

lemma deepClone_terminates:
  "\<lbrakk>closed_heap h0; length h0 \<le> length h; \<forall>x<length h0. h ! x = h0 ! x; in_heap h0 v;
    card ({..<length h0} - dom hash) < n\<rbrakk>
   \<Longrightarrow> \<exists>r. deepClone n v (h, hash) = Some r \<and> (safe_heap h0 \<longrightarrow> (\<exists>res. r = Inr res))"
proof (induction n arbitrary: v h hash)
  case 0
  then show ?case by simp
next
  case (Suc m)
  show ?case
  proof (cases "\<exists>a. v = VObj a \<and> hash a = None")
    case False
    then show ?thesis by (cases v) (auto split: option.splits)
  next
    case True
    then obtain a where v: "v = VObj a" "hash a = None" by blast
    with Suc.prems(4) have a: "a < length h0" by (simp add: in_heap_def)
    have "{..<length h0} - dom (hash(a \<mapsto> length h)) \<subset> {..<length h0} - dom hash"
      using a v(2) by auto
    then have "card ({..<length h0} - dom (hash(a \<mapsto> length h)))
        < card ({..<length h0} - dom hash)"
      by (intro psubset_card_mono) auto
    with Suc.prems(5) have p3: "card ({..<length h0} - dom (hash(a \<mapsto> length h))) < m"
      by simp
    have p1: "length h0 \<le> length (h @ [new_clone (h ! a)])" using Suc.prems(2) by simp
    have p2: "\<forall>x<length h0. (h @ [new_clone (h ! a)]) ! x = h0 ! x"
      using Suc.prems(2,3) by (simp add: nth_append)
    have p4: "length h < length (h @ [new_clone (h ! a)])" by simp
    have p5: "proto ((h @ [new_clone (h ! a)]) ! length h) = proto (new_clone (h0 ! a))"
      using Suc.prems(3) a by simp
    have "\<exists>r. deepClone_props m a (length h) (for_in_keys (h ! a))
        (h @ [new_clone (h ! a)], hash(a \<mapsto> length h)) = Some r
        \<and> (safe_heap h0 \<longrightarrow> (\<exists>res. r = Inr res))"
      by (rule deepClone_props_terminates
          [where ?h0.0 = h0, OF _ Suc.prems(1) a Suc.prems(2) p1 p2 p3 p4 p5])
        (rule Suc.IH [OF Suc.prems(1)])
    then obtain r where "deepClone_props m a (length h) (for_in_keys (h ! a))
        (h @ [new_clone (h ! a)], hash(a \<mapsto> length h)) = Some r"
      "safe_heap h0 \<longrightarrow> (\<exists>res. r = Inr res)" by blast
    with v show ?thesis by (cases r) auto
  qed
qed

lemma deepClone_props_self:
  "\<lbrakk>deepClone_props m a c ks (h, hash) = Some (Inr (h', hash')); a < length h; c < length h;
    a \<noteq> c; hash a = Some c; map_of (props (h ! a)) s = Some (VObj a);
    s \<in> set ks \<or> map_of (props (h ! c)) s = Some (VObj c)\<rbrakk>
   \<Longrightarrow> map_of (props (h' ! c)) s = Some (VObj c)"
proof (induction ks arbitrary: h hash)
  case Nil
  then show ?case by simp
next
  case (Cons key ks)
  have own: "s \<in> set (keys (h ! a))"
    using Cons.prems(6) by (auto simp: keys_def dest: map_of_SomeD intro: rev_image_eqI)
  show ?case
  proof (cases "hasOwnProperty (h ! a) key")
    case (Inl e)
    with Cons.prems(1) show ?thesis by simp
  next
    case (Inr b)
    show ?thesis
    proof (cases b)
      case False
      with Inr own have "key \<noteq> s"
        by (auto simp: hasOwnProperty_def split: if_splits)
      with Cons.prems(7) have "s \<in> set ks \<or> map_of (props (h ! c)) s = Some (VObj c)" by auto
      moreover from Cons.prems(1) Inr False
      have "deepClone_props m a c ks (h, hash) = Some (Inr (h', hash'))" by simp
      ultimately show ?thesis using Cons.IH Cons.prems(2-6) by blast
    next
      case True
      with Cons.prems(1) Inr obtain v1 h1 hash1 h2 where
        r: "deepClone m (get (h ! a) key) (h, hash) = Some (Inr (v1, (h1, hash1)))"
        and as: "assign h1 c key v1 = Inr h2"
        and rest: "deepClone_props m a c ks (h2, hash1) = Some (Inr (h', hash'))"
        by (auto split: option.splits sum.splits)
      from deepClone_frame [OF r] have f1: "length h \<le> length h1" "\<forall>x<length h. h1 ! x = h ! x"
        "hash \<subseteq>\<^sub>m hash1" by auto
      from assign_frame [OF as] have f2: "length h2 = length h1"
        "\<forall>x. x \<noteq> c \<longrightarrow> h2 ! x = h1 ! x" by auto
      have c1: "c < length h1" using Cons.prems(3) f1(1) by simp
      have q1: "a < length h2" "c < length h2" using Cons.prems(2,3) f1(1) f2(1) by simp_all
      have q2: "hash1 a = Some c"
        using f1(3) Cons.prems(5) by (auto simp: map_le_def dom_def)
      have q3: "map_of (props (h2 ! a)) s = Some (VObj a)"
        using Cons.prems(2,4,6) f1(2) f2(2) by simp
      have q4: "s \<in> set ks \<or> map_of (props (h2 ! c)) s = Some (VObj c)"
      proof (cases "key = s")
        case True
        then have "get (h ! a) key = VObj a" using Cons.prems(6) by (simp add: get_def)
        with r Cons.prems(5) have "v1 = VObj c" by (cases m) auto
        with assign_self [OF as c1, of s] True show ?thesis by simp
      next
        case False
        with assign_self [OF as c1, of s] f1(2) Cons.prems(3,7) show ?thesis by auto
      qed
      from Cons.IH [OF rest q1 Cons.prems(4) q2 q3 q4] show ?thesis .
    qed
  qed
qed

lemma deepClone_self:
  assumes "deepClone n (VObj a) (h, Map.empty) = Some (Inr (v', (h', hash')))"
    and "a < length h" and "map_of (props (h ! a)) s = Some (VObj a)"
  shows "v' = VObj (length h) \<and> get (h' ! length h) s = VObj (length h)"
proof -
  from assms(1) obtain m where n: "n = Suc m" by (cases n) auto
  with assms(1) have v': "v' = VObj (length h)"
    and r: "deepClone_props m a (length h) (for_in_keys (h ! a))
        (h @ [new_clone (h ! a)], [a \<mapsto> length h]) = Some (Inr (h', hash'))"
    by (auto split: option.splits sum.splits)
  have "s \<in> set (keys (h ! a))"
    using assms(3) by (auto simp: keys_def dest: map_of_SomeD intro: rev_image_eqI)
  then have "s \<in> set (for_in_keys (h ! a))" by (simp add: for_in_keys_def)
  then have "map_of (props (h' ! length h)) s = Some (VObj (length h))"
    using assms(2,3)
    by (intro deepClone_props_self [OF r]) (auto simp: nth_append)
  with v' show ?thesis by (simp add: get_def)
qed

section \<open>deepClone and deepEqual: main properties\<close>

text \<open>
  An object with one own property whose value clones without touching the heap (a
  primitive, a function, or an object that \<^verbatim>\<open>hash\<close> already knows): the clone is the new
  object with that one property, and the inherited keys are skipped.
\<close>

lemma deepClone_single_prop:
  assumes a: "a < length h" and p: "props (h ! a) = [(key, v)]" and s: "safe_object (h ! a)"
    and inner: "deepClone n v (h @ [new_clone (h ! a)], [a \<mapsto> length h])
        = Some (Inr (v', (h @ [new_clone (h ! a)], [a \<mapsto> length h])))"
  shows "deepClone (Suc n) (VObj a) (h, Map.empty)
    = Some (Inr (VObj (length h),
        ((h @ [new_clone (h ! a)])[length h := (new_clone (h ! a))\<lparr>props := [(key, v')]\<rparr>],
         [a \<mapsto> length h])))"
proof -
  define h1 where "h1 = h @ [new_clone (h ! a)]"
  define h2 where "h2 = h1[length h := (new_clone (h ! a))\<lparr>props := [(key, v')]\<rparr>]"
  define extra where
    "extra = filter (\<lambda>k. k \<notin> set (keys (h ! a))) (inherited_keys (proto (h ! a)))"
  have h1a: "h1 ! a = h ! a" and h1c: "h1 ! length h = new_clone (h ! a)"
    using a by (simp_all add: h1_def nth_append)
  have h2a: "h2 ! a = h ! a" using a h1a by (simp add: h2_def)
  have k: "keys (h ! a) = [key]" using p by (simp add: keys_def)
  have hop: "lookup_hasOwnProperty (h ! a) = HasOwnPropertyFn"
    and free: "key \<notin> set (intercepted (proto (new_clone (h ! a))))"
    using s k by (simp_all add: safe_object_def)
  have own: "hasOwnProperty (h1 ! a) key = Inr True"
    using hop k h1a by (simp add: hasOwnProperty_builtin)
  have g: "get (h1 ! a) key = v" using p h1a by (simp add: get_def)
  have asg: "assign h1 (length h) key v' = Inr h2"
    using free by (simp add: assign_def h1c h2_def new_clone_kind keys_def)
  have skip: "deepClone_props n a (length h) extra (h2, [a \<mapsto> length h])
      = Some (Inr (h2, [a \<mapsto> length h]))"
    by (rule deepClone_props_skip) (simp_all add: h2a hop extra_def)
  have "deepClone_props n a (length h) (key # extra) (h1, [a \<mapsto> length h])
      = Some (Inr (h2, [a \<mapsto> length h]))"
    using own g inner asg skip by (simp add: h1_def [symmetric])
  moreover have "for_in_keys (h ! a) = key # extra"
    by (simp add: for_in_keys_def k extra_def)
  ultimately show ?thesis
    by (simp add: h1_def h2_def)
qed

text \<open>
  C10: a function value is returned by \<open>deepClone\<close> itself, by reference: the test of
  line 3 treats it like a primitive. So a function held by a cloned object is shared:
  the clone's property is the same function value as the original's.
\<close>

theorem deepClone_function_by_reference:
  "deepClone (Suc n) (VFun f) st = Some (Inr (VFun f, st))
   \<and> (a < length h \<and> props (h ! a) = [(key, VFun f)] \<and> safe_object (h ! a)
      \<longrightarrow> (\<exists>h' hash'. deepClone (Suc (Suc n)) (VObj a) (h, Map.empty)
              = Some (Inr (VObj (length h), (h', hash')))
            \<and> get (h' ! length h) key = VFun f
            \<and> strict_eq (get (h' ! length h) key) (get (h ! a) key)))"
proof -
  have f: "deepClone (Suc n) (VFun f) st = Some (Inr (VFun f, st))" for st
    by (cases st) simp
  moreover have "\<exists>h' hash'. deepClone (Suc (Suc n)) (VObj a) (h, Map.empty)
        = Some (Inr (VObj (length h), (h', hash')))
      \<and> get (h' ! length h) key = VFun f
      \<and> strict_eq (get (h' ! length h) key) (get (h ! a) key)"
    if "a < length h" "props (h ! a) = [(key, VFun f)]" "safe_object (h ! a)"
  proof -
    let ?h' = "(h @ [new_clone (h ! a)])[length h := (new_clone (h ! a))\<lparr>props := [(key, VFun f)]\<rparr>]"
    have "deepClone (Suc (Suc n)) (VObj a) (h, Map.empty)
        = Some (Inr (VObj (length h), (?h', [a \<mapsto> length h])))"
      using that by (rule deepClone_single_prop) (rule f)
    moreover have "get (?h' ! length h) key = VFun f" by (simp add: get_def)
    moreover have "get (h ! a) key = VFun f" using that(2) by (simp add: get_def)
    ultimately show ?thesis by (auto simp: strict_eq_def)
  qed
  ultimately show ?thesis by blast
qed

theorem deepClone_function_by_reference_witness:
  "deepClone (Suc 0) (VFun 7) (fun_heap, Map.empty) = Some (Inr (VFun 7, (fun_heap, Map.empty)))
   \<and> (\<exists>h' hash'. deepClone (Suc (Suc 0)) (VObj 0) (fun_heap, Map.empty)
          = Some (Inr (VObj (length fun_heap), (h', hash')))
        \<and> get (h' ! length fun_heap) (str ''f'') = VFun 7)"
proof -
  have "(0::nat) < length fun_heap \<and> props (fun_heap ! 0) = [(str ''f'', VFun 7)]
      \<and> safe_object (fun_heap ! 0)"
    by (simp add: fun_heap_def plain_object_def safe_object_def lookup_hasOwnProperty_def
        object_proto_def new_clone_def keys_def str_def)
  then show ?thesis
    using deepClone_function_by_reference [of 0 7 "(fun_heap, Map.empty)" 0 fun_heap "str ''f''"]
    by blast
qed

text \<open>
  C3: \<open>deepClone\<close> ends on every closed heap, cyclic or not: a recursion depth of one
  more than the number of objects always suffices, and the call returns a value when
  the heap is safe (otherwise it may throw). For an object \<open>o\<close> with \<^verbatim>\<open>o.self = o\<close>,
  whatever else the object and the heap hold, every run that returns gives a new
  object whose \<^verbatim>\<open>self\<close> is that new object: the inner call finds the clone in \<^verbatim>\<open>hash\<close>,
  where line 12 put it before the loop. When \<^verbatim>\<open>self\<close> is the only property of a safe
  object, the call returns within depth 2.
\<close>

theorem deepClone_self_reference:
  assumes "closed_heap h" and "a < length h"
    and "map_of (props (h ! a)) (str ''self'') = Some (VObj a)"
  shows "(\<forall>n>length h. \<exists>r. deepClone n (VObj a) (h, Map.empty) = Some r)
    \<and> (safe_heap h \<longrightarrow> (\<forall>n>length h. \<exists>h' hash'.
          deepClone n (VObj a) (h, Map.empty) = Some (Inr (VObj (length h), (h', hash')))))
    \<and> (\<forall>n v' h' hash'. deepClone n (VObj a) (h, Map.empty) = Some (Inr (v', (h', hash')))
          \<longrightarrow> v' = VObj (length h)
            \<and> get (h' ! length h) (str ''self'') = VObj (length h)
            \<and> strict_eq (get (h' ! length h) (str ''self'')) v'
            \<and> \<not> strict_eq v' (VObj a))
    \<and> (props (h ! a) = [(str ''self'', VObj a)] \<and> safe_object (h ! a)
          \<longrightarrow> (\<exists>h' hash'. deepClone 2 (VObj a) (h, Map.empty)
                = Some (Inr (VObj (length h), (h', hash')))))"
proof -
  have ends: "\<exists>r. deepClone n (VObj a) (h, Map.empty) = Some r \<and> (safe_heap h \<longrightarrow> (\<exists>res. r = Inr res))"
    if "length h < n" for n
    using that assms(1,2) by (intro deepClone_terminates [of h]) (simp_all add: in_heap_def)
  have self: "v' = VObj (length h) \<and> get (h' ! length h) (str ''self'') = VObj (length h)"
    if "deepClone n (VObj a) (h, Map.empty) = Some (Inr (v', (h', hash')))" for n v' h' hash'
    using that assms(2,3) by (rule deepClone_self)
  have one: "\<forall>n>length h. \<exists>r. deepClone n (VObj a) (h, Map.empty) = Some r"
    using ends by blast
  have two: "\<forall>n>length h. \<exists>h' hash'.
      deepClone n (VObj a) (h, Map.empty) = Some (Inr (VObj (length h), (h', hash')))"
    if "safe_heap h"
  proof (intro allI impI)
    fix n assume "length h < n"
    with ends that obtain res where "deepClone n (VObj a) (h, Map.empty) = Some (Inr res)"
      by blast
    moreover obtain v' h' hash' where "res = (v', (h', hash'))" by (cases res) auto
    ultimately show "\<exists>h' hash'.
        deepClone n (VObj a) (h, Map.empty) = Some (Inr (VObj (length h), (h', hash')))"
      using self by blast
  qed
  have three: "v' = VObj (length h) \<and> get (h' ! length h) (str ''self'') = VObj (length h)
      \<and> strict_eq (get (h' ! length h) (str ''self'')) v' \<and> \<not> strict_eq v' (VObj a)"
    if "deepClone n (VObj a) (h, Map.empty) = Some (Inr (v', (h', hash')))" for n v' h' hash'
    using self [OF that] assms(2) by (simp add: strict_eq_def)
  have four: "\<exists>h' hash'. deepClone 2 (VObj a) (h, Map.empty)
      = Some (Inr (VObj (length h), (h', hash')))"
    if "props (h ! a) = [(str ''self'', VObj a)]" "safe_object (h ! a)"
  proof -
    have "deepClone 1 (VObj a) (h @ [new_clone (h ! a)], [a \<mapsto> length h])
        = Some (Inr (VObj (length h), (h @ [new_clone (h ! a)], [a \<mapsto> length h])))"
      by simp
    from deepClone_single_prop [OF assms(2) that this] show ?thesis
      by (simp add: numeral_2_eq_2)
  qed
  from one two three four show ?thesis by blast
qed

theorem deepClone_self_reference_witness:
  "\<exists>h' hash'. deepClone 3 (VObj 0) (cycle_heap, Map.empty)
        = Some (Inr (VObj (length cycle_heap), (h', hash')))
     \<and> get (h' ! length cycle_heap) (str ''self'') = VObj (length cycle_heap)"
proof -
  have c: "closed_heap cycle_heap"
    by (simp add: closed_heap_def cycle_heap_def plain_object_def)
  have s: "safe_heap cycle_heap"
    by (simp add: safe_heap_def safe_object_def cycle_heap_def plain_object_def keys_def
        lookup_hasOwnProperty_def object_proto_def new_clone_def str_def)
  have a: "(0::nat) < length cycle_heap"
    "map_of (props (cycle_heap ! 0)) (str ''self'') = Some (VObj 0)"
    "length cycle_heap < 3"
    by (simp_all add: cycle_heap_def plain_object_def)
  from deepClone_self_reference [OF c a(1,2)] s a(3) show ?thesis
    by blast
qed




text \<open>
  An object without prototype is not plain, whatever it holds: \<^verbatim>\<open>obj.hasOwnProperty\<close> is
  \<^verbatim>\<open>undefined\<close>, and cloning \<^verbatim>\<open>Object.create(null)\<close> with a property throws TypeError at
  line 15.
\<close>

lemma deepClone_without_prototype_throws:
  "deepClone 2 (VObj 0) (bare_heap, Map.empty) = Some (Inl TypeError)
   \<and> \<not> plain (TObj KObject null_proto [(str ''x'', TPrim (VNum (Finite 1)))])
   \<and> unfolds {} bare_heap (VObj 0) (TObj KObject null_proto [(str ''x'', TPrim (VNum (Finite 1)))])"
  by (simp add: eval_nat_numeral bare_heap_def null_proto_def keys_def hasOwnProperty_def
      lookup_hasOwnProperty_def for_in_keys_def HasOwnPropertyFn_def str_def)

section \<open>deepEqual: when it returns true\<close>











end
